theory Spec2Isabelle
  imports Complex_Main "HOL-Library.Multiset" "HOL-Library.Option_ord" "HOL-Library.Log_Nat"
begin

section \<open>JavaScript arrays of numbers\<close>

text \<open>
  The engines work on JavaScript arrays whose entries are numbers; a read outside the
  array yields \<^verbatim>\<open>undefined\<close>, and a write behind the end extends the array (the
  gap reads as \<^verbatim>\<open>undefined\<close>). An array is therefore a list of \<open>int option\<close>, with
  \<open>None\<close> for \<^verbatim>\<open>undefined\<close>, and indices are integers, as the code computes values such
  as \<^verbatim>\<open>n - 1\<close> and \<^verbatim>\<open>low - 1\<close> that can be negative. A write at a negative index
  creates a property that is no element of the array; the elements and the length stay
  as they are.
\<close>

type_synonym jsarr = "int option list"

definition js_get :: "jsarr \<Rightarrow> int \<Rightarrow> int option" where
  "js_get a i = (if 0 \<le> i \<and> i < int (length a) then a ! nat i else None)"

definition js_set :: "jsarr \<Rightarrow> int \<Rightarrow> int option \<Rightarrow> jsarr" where
  "js_set a i v =
     (if i < 0 then a
      else if i < int (length a) then a[nat i := v]
      else a @ replicate (nat i - length a) None @ [v])"

text \<open>The destructuring exchange \<^verbatim>\<open>[a[i], a[j]] = [a[j], a[i]]\<close>: both reads first.\<close>

definition js_swap :: "jsarr \<Rightarrow> int \<Rightarrow> int \<Rightarrow> jsarr" where
  "js_swap a i j = (let x = js_get a j; y = js_get a i in js_set (js_set a i x) j y)"

text \<open>Comparisons: with \<^verbatim>\<open>undefined\<close> on either side every comparison is false.\<close>

fun js_gt :: "int option \<Rightarrow> int option \<Rightarrow> bool" where
  "js_gt (Some x) (Some y) = (x > y)"
| "js_gt _ _ = False"

fun js_lt :: "int option \<Rightarrow> int option \<Rightarrow> bool" where
  "js_lt (Some x) (Some y) = (x < y)"
| "js_lt _ _ = False"

fun js_le :: "int option \<Rightarrow> int option \<Rightarrow> bool" where
  "js_le (Some x) (Some y) = (x \<le> y)"
| "js_le _ _ = False"

text \<open>\<^verbatim>\<open>xs[k]\<close> on a list of indices: \<^verbatim>\<open>undefined\<close> behind the end.\<close>

definition js_nth :: "'a list \<Rightarrow> nat \<Rightarrow> 'a option" where
  "js_nth xs k = (if k < length xs then Some (xs ! k) else None)"

section \<open>Steps (SortingAlgorithm base class)\<close>

datatype StepType = COMPARE | SWAP | DIVIDE | MERGE | SORTED | SELECT | INSERT | PIVOT

text \<open>
  A step as \<^verbatim>\<open>createStep\<close> builds it. The field \<^verbatim>\<open>values\<close> is called \<open>vals\<close>
  here. The \<^verbatim>\<open>description\<close> text is narration only and is left out.
\<close>

record Step =
  type :: StepType
  indices :: "int list"
  vals :: "int option list"
  arrayState :: jsarr
  isUserAction :: bool

definition createStep :: "StepType \<Rightarrow> int list \<Rightarrow> jsarr \<Rightarrow> bool \<Rightarrow> Step" where
  "createStep t idx arr ua =
     \<lparr>type = t, indices = idx, vals = map (js_get arr) idx, arrayState = arr, isUserAction = ua\<rparr>"

definition getUserActionCount :: "Step list \<Rightarrow> nat" where
  "getUserActionCount steps = length (filter isUserAction steps)"

definition getOptimalSwapCount :: "Step list \<Rightarrow> nat" where
  "getOptimalSwapCount steps = length (filter (\<lambda>s. type s = SWAP) steps)"

text \<open>
  The closing loop \<^verbatim>\<open>for (let i = 0; i < n; i++) push(sorted [i])\<close> shared by the
  insertion, merge and quick engines.
\<close>

function mark_all_sorted :: "int \<Rightarrow> int \<Rightarrow> jsarr \<Rightarrow> Step list \<Rightarrow> Step list" where
  "mark_all_sorted n i arr steps =
     (if i < n then mark_all_sorted n (i + 1) arr (steps @ [createStep SORTED [i] arr False])
      else steps)"
  by pat_completeness auto
termination
  by (relation "measure (\<lambda>(n, i, arr, steps). nat (n - i))") auto

declare mark_all_sorted.simps [simp del]

section \<open>Bubble sort\<close>

function bubble_inner ::
  "int \<Rightarrow> int \<Rightarrow> int \<Rightarrow> jsarr \<Rightarrow> bool \<Rightarrow> Step list \<Rightarrow> jsarr \<times> bool \<times> Step list" where
  "bubble_inner n i j arr swapped steps =
     (if j < n - i - 1 then
        (if js_gt (js_get arr j) (js_get arr (j + 1)) then
           bubble_inner n i (j + 1) (js_swap arr j (j + 1)) True
             (steps @ [createStep COMPARE [j, j + 1] arr False,
                       createStep SWAP [j, j + 1] arr True])
         else
           bubble_inner n i (j + 1) arr swapped
             (steps @ [createStep COMPARE [j, j + 1] arr False]))
      else (arr, swapped, steps))"
  by pat_completeness auto
termination
  by (relation "measure (\<lambda>(n, i, j, arr, swapped, steps). nat (n - i - 1 - j))") auto

declare bubble_inner.simps [simp del]

function bubble_mark :: "int \<Rightarrow> int \<Rightarrow> int \<Rightarrow> jsarr \<Rightarrow> Step list \<Rightarrow> Step list" where
  "bubble_mark n i k arr steps =
     (if k < n - i - 1 then
        bubble_mark n i (k + 1) arr (steps @ [createStep SORTED [k] arr False])
      else steps)"
  by pat_completeness auto
termination
  by (relation "measure (\<lambda>(n, i, k, arr, steps). nat (n - i - 1 - k))") auto

declare bubble_mark.simps [simp del]

function bubble_outer :: "int \<Rightarrow> int \<Rightarrow> jsarr \<Rightarrow> Step list \<Rightarrow> jsarr \<times> Step list" where
  "bubble_outer n i arr steps =
     (if i < n - 1 then
        (case bubble_inner n i 0 arr False steps of
           (arr1, swapped, steps1) \<Rightarrow>
             if \<not> swapped then
               (arr1, bubble_mark n i 0 arr1
                        (steps1 @ [createStep SORTED [n - i - 1] arr1 False]))
             else
               bubble_outer n (i + 1) arr1
                 (steps1 @ [createStep SORTED [n - i - 1] arr1 False]))
      else (arr, steps))"
  by pat_completeness auto
termination
  by (relation "measure (\<lambda>(n, i, arr, steps). nat (n - i))") auto

declare bubble_outer.simps [simp del]

definition BubbleSort_generateSteps :: "int list \<Rightarrow> Step list" where
  "BubbleSort_generateSteps inputArray =
     (let arr = map Some inputArray; n = int (length arr) in
      case bubble_outer n 0 arr [] of
        (arr1, steps) \<Rightarrow>
          if length steps > 0 \<and> js_nth (indices (last steps)) 0 \<noteq> Some 0
          then steps @ [createStep SORTED [0] arr1 False]
          else steps)"

section \<open>Selection sort\<close>

function selection_inner ::
  "int \<Rightarrow> int \<Rightarrow> jsarr \<Rightarrow> int \<Rightarrow> Step list \<Rightarrow> int \<times> Step list" where
  "selection_inner n j arr minIndex steps =
     (if j < n then
        (if js_lt (js_get arr j) (js_get arr minIndex) then
           selection_inner n (j + 1) arr j
             (steps @ [createStep COMPARE [minIndex, j] arr False,
                       createStep SELECT [j] arr False])
         else
           selection_inner n (j + 1) arr minIndex
             (steps @ [createStep COMPARE [minIndex, j] arr False]))
      else (minIndex, steps))"
  by pat_completeness auto
termination
  by (relation "measure (\<lambda>(n, j, arr, minIndex, steps). nat (n - j))") auto

declare selection_inner.simps [simp del]

function selection_outer :: "int \<Rightarrow> int \<Rightarrow> jsarr \<Rightarrow> Step list \<Rightarrow> jsarr \<times> Step list" where
  "selection_outer n i arr steps =
     (if i < n - 1 then
        (case selection_inner n (i + 1) arr i (steps @ [createStep SELECT [i] arr False]) of
           (minIndex, steps1) \<Rightarrow>
             if minIndex \<noteq> i then
               selection_outer n (i + 1) (js_swap arr i minIndex)
                 (steps1 @ [createStep SWAP [i, minIndex] arr True,
                            createStep SORTED [i] (js_swap arr i minIndex) False])
             else
               selection_outer n (i + 1) arr (steps1 @ [createStep SORTED [i] arr False]))
      else (arr, steps))"
  by pat_completeness auto
termination
  by (relation "measure (\<lambda>(n, i, arr, steps). nat (n - i))") auto

declare selection_outer.simps [simp del]

definition SelectionSort_generateSteps :: "int list \<Rightarrow> Step list" where
  "SelectionSort_generateSteps inputArray =
     (let arr = map Some inputArray; n = int (length arr) in
      case selection_outer n 0 arr [] of
        (arr1, steps) \<Rightarrow> steps @ [createStep SORTED [n - 1] arr1 False])"

section \<open>Insertion sort\<close>

text \<open>The shift \<^verbatim>\<open>arr[j + 1] = arr[j]; arr[j] = key\<close> is two writes, in this order.\<close>

function insertion_while ::
  "int option \<Rightarrow> int \<Rightarrow> jsarr \<Rightarrow> Step list \<Rightarrow> int \<times> jsarr \<times> Step list" where
  "insertion_while key j arr steps =
     (if j \<ge> 0 \<and> js_gt (js_get arr j) key then
        insertion_while key (j - 1) (js_set (js_set arr (j + 1) (js_get arr j)) j key)
          (steps @ [createStep COMPARE [j, j + 1] arr False,
                    createStep SWAP [j, j + 1] arr True])
      else (j, arr, steps))"
  by pat_completeness auto
termination
  by (relation "measure (\<lambda>(key, j, arr, steps). nat (j + 1))") auto

declare insertion_while.simps [simp del]

function insertion_outer :: "int \<Rightarrow> int \<Rightarrow> jsarr \<Rightarrow> Step list \<Rightarrow> jsarr \<times> Step list" where
  "insertion_outer n i arr steps =
     (if i < n then
        (case insertion_while (js_get arr i) (i - 1) arr
                (steps @ [createStep SELECT [i] arr False]) of
           (j, arr1, steps1) \<Rightarrow>
             insertion_outer n (i + 1) arr1
               ((if j = i - 1 then steps1 @ [createStep COMPARE [j, i] arr1 False] else steps1)
                @ [createStep INSERT [j + 1] arr1 False]))
      else (arr, steps))"
  by pat_completeness auto
termination
  by (relation "measure (\<lambda>(n, i, arr, steps). nat (n - i))") auto

declare insertion_outer.simps [simp del]

definition InsertionSort_generateSteps :: "int list \<Rightarrow> Step list" where
  "InsertionSort_generateSteps inputArray =
     (let arr = map Some inputArray; n = int (length arr) in
      case insertion_outer n 1 arr [createStep SORTED [0] arr False] of
        (arr1, steps) \<Rightarrow> mark_all_sorted n 0 arr1 steps)"

section \<open>Merge sort\<close>

text \<open>
  The temporary arrays \<^verbatim>\<open>L\<close> and \<^verbatim>\<open>R\<close> are filled entry by entry from the
  working array, starting with the empty array.
\<close>

function merge_copy :: "jsarr \<Rightarrow> int \<Rightarrow> int \<Rightarrow> int \<Rightarrow> jsarr \<Rightarrow> jsarr" where
  "merge_copy arr off cnt i tmp =
     (if i < cnt then merge_copy arr off cnt (i + 1) (js_set tmp i (js_get arr (off + i)))
      else tmp)"
  by pat_completeness auto
termination
  by (relation "measure (\<lambda>(arr, off, cnt, i, tmp). nat (cnt - i))") auto

declare merge_copy.simps [simp del]

function merge_both ::
  "jsarr \<Rightarrow> jsarr \<Rightarrow> int \<Rightarrow> int \<Rightarrow> int \<Rightarrow> int \<Rightarrow> int \<Rightarrow> int \<Rightarrow> int \<Rightarrow> jsarr \<Rightarrow> Step list
     \<Rightarrow> int \<times> int \<times> int \<times> jsarr \<times> Step list" where
  "merge_both L R n1 n2 left mid i j k arr steps =
     (if i < n1 \<and> j < n2 then
        (if js_le (js_get L i) (js_get R j) then
           merge_both L R n1 n2 left mid (i + 1) j (k + 1) (js_set arr k (js_get L i))
             (steps @ [createStep COMPARE [left + i, mid + 1 + j] arr False,
                       createStep SELECT [k] arr True])
         else
           merge_both L R n1 n2 left mid i (j + 1) (k + 1) (js_set arr k (js_get R j))
             (steps @ [createStep COMPARE [left + i, mid + 1 + j] arr False,
                       createStep SELECT [k] arr True]))
      else (i, j, k, arr, steps))"
  by pat_completeness auto
termination
  by (relation "measure (\<lambda>(L, R, n1, n2, left, mid, i, j, k, arr, steps).
                           nat (n1 - i) + nat (n2 - j))") auto

declare merge_both.simps [simp del]

text \<open>The two loops that copy what is left of \<^verbatim>\<open>L\<close>, then of \<^verbatim>\<open>R\<close>.\<close>

function merge_rest ::
  "jsarr \<Rightarrow> int \<Rightarrow> int \<Rightarrow> int \<Rightarrow> jsarr \<Rightarrow> Step list \<Rightarrow> int \<times> jsarr \<times> Step list" where
  "merge_rest T cnt i k arr steps =
     (if i < cnt then
        merge_rest T cnt (i + 1) (k + 1) (js_set arr k (js_get T i))
          (steps @ [createStep SELECT [k] arr True])
      else (k, arr, steps))"
  by pat_completeness auto
termination
  by (relation "measure (\<lambda>(T, cnt, i, k, arr, steps). nat (cnt - i))") auto

declare merge_rest.simps [simp del]

definition merge :: "int \<Rightarrow> int \<Rightarrow> int \<Rightarrow> jsarr \<Rightarrow> Step list \<Rightarrow> jsarr \<times> Step list" where
  "merge left mid right arr steps =
     (let n1 = mid - left + 1;
          n2 = right - mid;
          L = merge_copy arr left n1 0 [];
          R = merge_copy arr (mid + 1) n2 0 [];
          steps1 = steps @ [createStep MERGE [left, right] arr False]
      in case merge_both L R n1 n2 left mid 0 0 left arr steps1 of
           (i, j, k, arr1, steps2) \<Rightarrow>
             (case merge_rest L n1 i k arr1 steps2 of
                (k1, arr2, steps3) \<Rightarrow>
                  (case merge_rest R n2 j k1 arr2 steps3 of
                     (k2, arr3, steps4) \<Rightarrow> (arr3, steps4))))"

function mergeSortRecursive ::
  "int \<Rightarrow> int \<Rightarrow> jsarr \<Rightarrow> Step list \<Rightarrow> jsarr \<times> Step list" where
  "mergeSortRecursive left right arr steps =
     (if left \<ge> right then (arr, steps)
      else
        (case mergeSortRecursive left (left + (right - left) div 2) arr
                (steps @ [createStep DIVIDE [left, right] arr False]) of
           (arr1, steps1) \<Rightarrow>
             (case mergeSortRecursive (left + (right - left) div 2 + 1) right arr1 steps1 of
                (arr2, steps2) \<Rightarrow>
                  merge left (left + (right - left) div 2) right arr2 steps2)))"
  by pat_completeness auto
termination
  by (relation "measure (\<lambda>(left, right, arr, steps). nat (right - left))") auto

declare mergeSortRecursive.simps [simp del]

definition MergeSort_generateSteps :: "int list \<Rightarrow> Step list" where
  "MergeSort_generateSteps inputArray =
     (let workingArray = map Some inputArray in
      case mergeSortRecursive 0 (int (length workingArray) - 1) workingArray [] of
        (arr1, steps) \<Rightarrow> mark_all_sorted (int (length arr1)) 0 arr1 steps)"

section \<open>Quick sort (Lomuto partition, last element as pivot)\<close>

function partition_loop ::
  "int option \<Rightarrow> int \<Rightarrow> int \<Rightarrow> int \<Rightarrow> jsarr \<Rightarrow> Step list \<Rightarrow> int \<times> jsarr \<times> Step list" where
  "partition_loop pivot high j i arr steps =
     (if j < high then
        (if js_lt (js_get arr j) pivot then
           (if i + 1 \<noteq> j then
              partition_loop pivot high (j + 1) (i + 1) (js_swap arr (i + 1) j)
                (steps @ [createStep COMPARE [j, high] arr False,
                          createStep SWAP [i + 1, j] arr True])
            else
              partition_loop pivot high (j + 1) (i + 1) arr
                (steps @ [createStep COMPARE [j, high] arr False,
                          createStep SELECT [i + 1] arr False]))
         else
           partition_loop pivot high (j + 1) i arr
             (steps @ [createStep COMPARE [j, high] arr False]))
      else (i, arr, steps))"
  by pat_completeness auto
termination
  by (relation "measure (\<lambda>(pivot, high, j, i, arr, steps). nat (high - j))") auto

declare partition_loop.simps [simp del]

definition partition :: "int \<Rightarrow> int \<Rightarrow> jsarr \<Rightarrow> Step list \<Rightarrow> int \<times> jsarr \<times> Step list" where
  "partition low high arr steps =
     (case partition_loop (js_get arr high) high low (low - 1) arr
             (steps @ [createStep PIVOT [high] arr False]) of
        (i, arr1, steps1) \<Rightarrow>
          (let pivotFinalPos = i + 1 in
           if pivotFinalPos \<noteq> high then
             (pivotFinalPos, js_swap arr1 pivotFinalPos high,
              steps1 @ [createStep SWAP [pivotFinalPos, high] arr1 True])
           else (pivotFinalPos, arr1, steps1)))"

text \<open>The pivot position lies in the range, which is what makes the recursion end.\<close>

lemma partition_loop_bounds:
  "partition_loop pivot high j i arr steps = (i', arr', steps') \<Longrightarrow> i < j \<Longrightarrow> j \<le> high \<Longrightarrow>
     i \<le> i' \<and> i' < high"
proof (induction pivot high j i arr steps rule: partition_loop.induct)
  case (1 pivot high j i arr steps)
  show ?case
  proof (cases "j < high")
    case True
    then show ?thesis using "1.prems" "1.IH"
      by (subst (asm) partition_loop.simps) (auto split: if_splits)
  next
    case False
    then show ?thesis using "1.prems"
      by (subst (asm) partition_loop.simps) auto
  qed
qed

lemma partition_bounds:
  "partition low high arr steps = (p, arr', steps') \<Longrightarrow> low \<le> high \<Longrightarrow> low \<le> p \<and> p \<le> high"
  unfolding partition_def
  by (auto simp: Let_def split: prod.splits if_splits dest!: partition_loop_bounds)

function quickSortRecursive ::
  "int \<Rightarrow> int \<Rightarrow> jsarr \<Rightarrow> Step list \<Rightarrow> jsarr \<times> Step list" where
  "quickSortRecursive low high arr steps =
     (if low \<ge> high then
        (if low = high then (arr, steps @ [createStep SORTED [low] arr False])
         else (arr, steps))
      else
        (case partition low high arr (steps @ [createStep DIVIDE [low, high] arr False]) of
           (pivotIndex, arr1, steps1) \<Rightarrow>
             (case quickSortRecursive low (pivotIndex - 1) arr1
                     (steps1 @ [createStep SORTED [pivotIndex] arr1 False]) of
                (arr2, steps2) \<Rightarrow> quickSortRecursive (pivotIndex + 1) high arr2 steps2)))"
  by pat_completeness auto
termination
proof (relation "measure (\<lambda>(low, high, arr, steps). nat (high - low + 1))", goal_cases)
  case 1
  show ?case by simp
next
  case 2
  then show ?case
    by (auto dest: partition_bounds partition_bounds[OF sym])
next
  case 3
  then show ?case
    by (auto dest: partition_bounds partition_bounds[OF sym])
qed

declare quickSortRecursive.simps [simp del]

definition QuickSort_generateSteps :: "int list \<Rightarrow> Step list" where
  "QuickSort_generateSteps inputArray =
     (let arr = map Some inputArray in
      case quickSortRecursive 0 (int (length arr) - 1) arr [] of
        (arr1, steps) \<Rightarrow> mark_all_sorted (int (length arr1)) 0 arr1 steps)"

section \<open>Heap sort\<close>

text \<open>
  The first half of \<^verbatim>\<open>heapify\<close>, up to the test \<^verbatim>\<open>largest !== i\<close>: the candidate
  after the comparison with the left child, the final candidate, and the compare steps
  pushed on the way.
\<close>

definition heapify_largest1 :: "int \<Rightarrow> int \<Rightarrow> jsarr \<Rightarrow> int" where
  "heapify_largest1 n i arr =
     (if 2 * i + 1 < n \<and> js_gt (js_get arr (2 * i + 1)) (js_get arr i) then 2 * i + 1 else i)"

definition heapify_largest :: "int \<Rightarrow> int \<Rightarrow> jsarr \<Rightarrow> int" where
  "heapify_largest n i arr =
     (if 2 * i + 2 < n \<and> js_gt (js_get arr (2 * i + 2)) (js_get arr (heapify_largest1 n i arr))
      then 2 * i + 2 else heapify_largest1 n i arr)"

definition heapify_compares :: "int \<Rightarrow> int \<Rightarrow> jsarr \<Rightarrow> Step list" where
  "heapify_compares n i arr =
     (if 2 * i + 1 < n then [createStep COMPARE [i, 2 * i + 1] arr False] else [])
     @ (if 2 * i + 2 < n
        then [createStep COMPARE [heapify_largest1 n i arr, 2 * i + 2] arr False] else [])"

lemma js_gt_get_nonneg: "js_gt (js_get arr k) y \<Longrightarrow> 0 \<le> k"
  by (cases "js_get arr k") (auto simp: js_get_def split: if_splits)

lemma heapify_largest_cases:
  "heapify_largest n i arr = i
   \<or> (0 \<le> i \<and> heapify_largest n i arr = 2 * i + 1 \<and> 2 * i + 1 < n)
   \<or> (0 \<le> i + 1 \<and> heapify_largest n i arr = 2 * i + 2 \<and> 2 * i + 2 < n)"
  using js_gt_get_nonneg[of arr "2 * i + 1" "js_get arr i"]
    js_gt_get_nonneg[of arr "2 * i + 2" "js_get arr (heapify_largest1 n i arr)"]
  by (auto simp: heapify_largest_def heapify_largest1_def)

function heapify :: "int \<Rightarrow> int \<Rightarrow> jsarr \<Rightarrow> Step list \<Rightarrow> jsarr \<times> Step list" where
  "heapify n i arr steps =
     (if heapify_largest n i arr \<noteq> i then
        heapify n (heapify_largest n i arr) (js_swap arr i (heapify_largest n i arr))
          (steps @ heapify_compares n i arr
                 @ [createStep SWAP [i, heapify_largest n i arr] arr True])
      else (arr, steps @ heapify_compares n i arr))"
  by pat_completeness auto
termination
proof (relation "measure (\<lambda>(n, i, arr, steps). nat (n - i))", goal_cases)
  case 1
  show ?case by simp
next
  case (2 n i arr steps)
  then show ?case using heapify_largest_cases[of n i arr] by auto
qed

declare heapify.simps [simp del]

function heap_build :: "int \<Rightarrow> int \<Rightarrow> jsarr \<Rightarrow> Step list \<Rightarrow> jsarr \<times> Step list" where
  "heap_build n i arr steps =
     (if i \<ge> 0 then
        (case heapify n i arr steps of (arr1, steps1) \<Rightarrow> heap_build n (i - 1) arr1 steps1)
      else (arr, steps))"
  by pat_completeness auto
termination
  by (relation "measure (\<lambda>(n, i, arr, steps). nat (i + 1))") auto

declare heap_build.simps [simp del]

function heap_extract :: "int \<Rightarrow> jsarr \<Rightarrow> Step list \<Rightarrow> jsarr \<times> Step list" where
  "heap_extract i arr steps =
     (if i > 0 then
        (case heapify i 0 (js_swap arr 0 i)
                (steps @ [createStep SWAP [0, i] arr True,
                          createStep SORTED [i] (js_swap arr 0 i) False]) of
           (arr1, steps1) \<Rightarrow> heap_extract (i - 1) arr1 steps1)
      else (arr, steps))"
  by pat_completeness auto
termination
  by (relation "measure (\<lambda>(i, arr, steps). nat i)") auto

declare heap_extract.simps [simp del]

definition HeapSort_generateSteps :: "int list \<Rightarrow> Step list" where
  "HeapSort_generateSteps inputArray =
     (let arr = map Some inputArray; n = int (length arr) in
      case heap_build n (n div 2 - 1) arr [createStep DIVIDE [] arr False] of
        (arr1, steps1) \<Rightarrow>
          (case heap_extract (n - 1) arr1 steps1 of
             (arr2, steps2) \<Rightarrow> steps2 @ [createStep SORTED [0] arr2 False]))"


section \<open>Move validation\<close>

text \<open>
  A user action is an object with a \<^verbatim>\<open>type\<close>, and \<^verbatim>\<open>indices\<close> (for a swap) or a
  \<^verbatim>\<open>value\<close> (for a selection). The step index is a position in the engine's
  \<^verbatim>\<open>steps\<close> array; the game manager passes its cursor, which starts at 0 and is only
  incremented.
\<close>

record UserAction =
  actionType :: string
  actionIndices :: "int list"
  actionValue :: "int option"

record Validation =
  valid :: bool
  message :: string

text \<open>
  The body that \<^verbatim>\<open>validateMove\<close> has in the bubble, selection, insertion, quick and
  heap engines; they differ in the two messages only. \<^verbatim>\<open>step.indices.sort(...)\<close>
  sorts the stored step's indices in place, so the engine's steps are returned as well.
\<close>

definition validateMove_swap ::
  "string \<Rightarrow> string \<Rightarrow> Step list \<Rightarrow> nat \<Rightarrow> UserAction \<Rightarrow> Validation \<times> Step list" where
  "validateMove_swap okMessage failMessage engineSteps stepIndex userAction =
     (case js_nth engineSteps stepIndex of
        None \<Rightarrow> (\<lparr>valid = False, message = ''Invalid step index''\<rparr>, engineSteps)
      | Some step \<Rightarrow>
          if \<not> isUserAction step then
            (\<lparr>valid = False, message = ''No user action required at this step''\<rparr>, engineSteps)
          else if actionType userAction \<noteq> ''swap'' then
            (\<lparr>valid = False, message = ''Expected a swap action''\<rparr>, engineSteps)
          else
            (let expectedIndices = sort (indices step);
                 engineSteps1 = engineSteps[stepIndex := step\<lparr>indices := expectedIndices\<rparr>];
                 userIndices = sort (actionIndices userAction)
             in if js_nth expectedIndices 0 = js_nth userIndices 0
                   \<and> js_nth expectedIndices 1 = js_nth userIndices 1
                then (\<lparr>valid = True, message = okMessage\<rparr>, engineSteps1)
                else (\<lparr>valid = False, message = failMessage\<rparr>, engineSteps1)))"

definition BubbleSort_validateMove ::
  "Step list \<Rightarrow> nat \<Rightarrow> UserAction \<Rightarrow> Validation \<times> Step list" where
  "BubbleSort_validateMove =
     validateMove_swap ''Correct swap!''
       ''Incorrect. In Bubble Sort, we compare adjacent elements and swap if the left is greater than the right.''"

definition SelectionSort_validateMove ::
  "Step list \<Rightarrow> nat \<Rightarrow> UserAction \<Rightarrow> Validation \<times> Step list" where
  "SelectionSort_validateMove =
     validateMove_swap ''Correct! You swapped the minimum element to its correct position.''
       ''Incorrect. In Selection Sort, swap the minimum element from the unsorted portion with the first unsorted position.''"

definition InsertionSort_validateMove ::
  "Step list \<Rightarrow> nat \<Rightarrow> UserAction \<Rightarrow> Validation \<times> Step list" where
  "InsertionSort_validateMove =
     validateMove_swap ''Correct! You shifted the element to make room for insertion.''
       ''Incorrect. In Insertion Sort, shift larger elements to the right to make room for the current element.''"

definition QuickSort_validateMove ::
  "Step list \<Rightarrow> nat \<Rightarrow> UserAction \<Rightarrow> Validation \<times> Step list" where
  "QuickSort_validateMove =
     validateMove_swap ''Correct! You performed the right partition swap.''
       ''Incorrect. In Quick Sort partitioning, swap elements to ensure smaller values are left of the pivot.''"

definition HeapSort_validateMove ::
  "Step list \<Rightarrow> nat \<Rightarrow> UserAction \<Rightarrow> Validation \<times> Step list" where
  "HeapSort_validateMove =
     validateMove_swap ''Correct! Heap property maintained.''
       ''Incorrect. In Heap Sort, swap to maintain the max-heap property.''"

text \<open>Merge sort expects a selection by value and compares it with \<^verbatim>\<open>step.values[0]\<close>.\<close>

definition MergeSort_validateMove ::
  "Step list \<Rightarrow> nat \<Rightarrow> UserAction \<Rightarrow> Validation \<times> Step list" where
  "MergeSort_validateMove engineSteps stepIndex userAction =
     (case js_nth engineSteps stepIndex of
        None \<Rightarrow> (\<lparr>valid = False, message = ''Invalid step index''\<rparr>, engineSteps)
      | Some step \<Rightarrow>
          if \<not> isUserAction step then
            (\<lparr>valid = False, message = ''No user action required at this step''\<rparr>, engineSteps)
          else if actionType userAction \<noteq> ''select'' then
            (\<lparr>valid = False, message = ''Expected a selection action''\<rparr>, engineSteps)
          else
            (let expectedValue = (case js_nth (vals step) 0 of None \<Rightarrow> None | Some v \<Rightarrow> v)
             in if actionValue userAction = expectedValue
                then (\<lparr>valid = True,
                       message = ''Correct! You selected the right element for the merge.''\<rparr>,
                      engineSteps)
                else (\<lparr>valid = False,
                       message = ''Incorrect. In Merge Sort, always pick the smaller element from the two sorted subarrays.''\<rparr>,
                      engineSteps)))"

section \<open>Scoring system\<close>

datatype Difficulty = easy | medium | hard | expert

text \<open>
  The multipliers 1.0, 1.5, 2.0 and 3.0 and the products the code forms with them are
  exact in binary floating point, so they are rational numbers here.
  \<^verbatim>\<open>Math.round\<close> rounds half up.
\<close>

definition difficultyMultipliers :: "Difficulty \<Rightarrow> rat" where
  "difficultyMultipliers d = (case d of easy \<Rightarrow> 1 | medium \<Rightarrow> 3 / 2 | hard \<Rightarrow> 2 | expert \<Rightarrow> 3)"

definition js_round :: "rat \<Rightarrow> int" where
  "js_round x = \<lfloor>x + 1 / 2\<rfloor>"

record CorrectMoveScore =
  basePoints :: int
  streakBonus :: int
  multiplier :: rat
  totalPoints :: int

definition calculateCorrectMoveScore :: "Difficulty \<Rightarrow> nat \<Rightarrow> CorrectMoveScore" where
  "calculateCorrectMoveScore d currentStreak =
     (let m = difficultyMultipliers d;
          b = 100;
          sb = (if currentStreak \<ge> 5 then 50 else 0)
      in \<lparr>basePoints = b, streakBonus = sb, multiplier = m,
          totalPoints = js_round (of_int (b + sb) * m)\<rparr>)"

section \<open>Game manager\<close>

datatype AlgorithmKey = Bubble | Selection | Insertion | Merge | Quick | Heap

definition generateSteps :: "AlgorithmKey \<Rightarrow> int list \<Rightarrow> Step list" where
  "generateSteps k inputArray =
     (case k of
        Bubble \<Rightarrow> BubbleSort_generateSteps inputArray
      | Selection \<Rightarrow> SelectionSort_generateSteps inputArray
      | Insertion \<Rightarrow> InsertionSort_generateSteps inputArray
      | Merge \<Rightarrow> MergeSort_generateSteps inputArray
      | Quick \<Rightarrow> QuickSort_generateSteps inputArray
      | Heap \<Rightarrow> HeapSort_generateSteps inputArray)"

definition validateMove ::
  "AlgorithmKey \<Rightarrow> Step list \<Rightarrow> nat \<Rightarrow> UserAction \<Rightarrow> Validation \<times> Step list" where
  "validateMove k =
     (case k of
        Bubble \<Rightarrow> BubbleSort_validateMove
      | Selection \<Rightarrow> SelectionSort_validateMove
      | Insertion \<Rightarrow> InsertionSort_validateMove
      | Merge \<Rightarrow> MergeSort_validateMove
      | Quick \<Rightarrow> QuickSort_validateMove
      | Heap \<Rightarrow> HeapSort_validateMove)"

text \<open>
  The state of a game manager after \<^verbatim>\<open>startGame\<close>. The manager's \<^verbatim>\<open>steps\<close> and
  the engine's \<^verbatim>\<open>steps\<close> are one and the same array (\<^verbatim>\<open>generateSteps\<close> returns the
  engine's own array), held in \<open>gameSteps\<close>. Counters are natural numbers: they start
  at 0 and are only incremented or reset to 0. Times are in milliseconds.
\<close>

record GameManager =
  currentAlgorithm :: AlgorithmKey
  currentArray :: jsarr
  originalArray :: "int list"
  gameSteps :: "Step list"
  currentStepIndex :: nat
  score :: int
  correctMoves :: nat
  incorrectMoves :: nat
  streak :: nat
  maxStreak :: nat
  startTime :: int
  endTime :: "int option"
  difficulty :: Difficulty
  isGameActive :: bool
  isGameComplete :: bool

text \<open>
  \<^verbatim>\<open>const [i, j] = indices; [arr[i], arr[j]] = [arr[j], arr[i]]\<close>, as
  \<^verbatim>\<open>processMove\<close> and \<^verbatim>\<open>skipStep\<close> apply a swap. With fewer than two indices
  the exchange goes through the property named \<^verbatim>\<open>undefined\<close>, which is not modelled
  (it reads as \<^verbatim>\<open>undefined\<close>).
\<close>

definition applySwap :: "jsarr \<Rightarrow> int list \<Rightarrow> jsarr" where
  "applySwap arr idx =
     (case idx of
        i # j # _ \<Rightarrow> js_swap arr i j
      | [i] \<Rightarrow> js_set arr i None
      | [] \<Rightarrow> arr)"

function advance_loop :: "Step list \<Rightarrow> nat \<Rightarrow> jsarr \<Rightarrow> nat \<times> jsarr" where
  "advance_loop ss idx arr =
     (if idx < length ss then
        (if isUserAction (ss ! idx) then (idx, arr)
         else advance_loop ss (idx + 1) (arrayState (ss ! idx)))
      else (idx, arr))"
  by pat_completeness auto
termination
  by (relation "measure (\<lambda>(ss, idx, arr). length ss - idx)") auto

declare advance_loop.simps [simp del]

definition advanceToNextUserAction :: "GameManager \<Rightarrow> GameManager" where
  "advanceToNextUserAction g =
     (case advance_loop (gameSteps g) (currentStepIndex g) (currentArray g) of
        (idx, arr) \<Rightarrow> g\<lparr>currentArray := arr, currentStepIndex := idx\<rparr>)"

text \<open>
  The arithmetic of \<^verbatim>\<open>completeGame\<close> is that of JavaScript numbers, which are
  doubles: a quotient, a difference or a product is the exact value rounded to the
  nearest number with a mantissa of 53 bits, a tie going to the even mantissa. The
  values that occur are far from the ranges of overflow and underflow, so the exponent
  is not bounded here. \<open>binary_exponent x\<close> is the \<open>e\<close> with \<open>2 ^ e \<le> x < 2 ^ (e + 1)\<close>,
  for a positive \<open>x\<close>.
\<close>

definition round_half_even :: "rat \<Rightarrow> int" where
  "round_half_even x =
     (let f = \<lfloor>x\<rfloor>; d = x - of_int f
      in if d < 1 / 2 then f else if d > 1 / 2 then f + 1 else if even f then f else f + 1)"

definition binary_exponent :: "rat \<Rightarrow> int" where
  "binary_exponent x =
     (case quotient_of x of
        (p, q) \<Rightarrow> (let e = bitlen p - bitlen q in if 2 powi e \<le> x then e else e - 1))"

definition to_double :: "rat \<Rightarrow> rat" where
  "to_double x =
     (if x = 0 then 0
      else (let a = \<bar>x\<bar>; u = 2 powi (binary_exponent a - 52)
            in sgn x * (of_int (round_half_even (a / u)) * u)))"

text \<open>
  \<^verbatim>\<open>completeGame\<close> reads the clock; the reading is the parameter \<open>now\<close>. Clock
  readings, lengths and counts are integers, which doubles hold exactly (below
  \<open>2 ^ 53\<close>); \<^verbatim>\<open>Math.round\<close> is exact on the double it is given, and the literal
  \<^verbatim>\<open>0.9\<close> is the double next to nine tenths. With no moves made the accuracy is
  \<^verbatim>\<open>0 / 0\<close>, not a number, and no accuracy bonus is given. With an empty trace the
  baseline time is 0, and the time bonus needs a clock reading before the start of the
  game: JavaScript then computes an infinite bonus, a case that the model leaves
  without bonus.
\<close>

definition completeGame :: "int \<Rightarrow> GameManager \<Rightarrow> GameManager" where
  "completeGame now g =
     (let timeTaken = to_double (of_int (now - startTime g) / 1000);
          optimalTime = (of_nat (length (gameSteps g) * 2) :: rat);
          score1 = (if timeTaken < optimalTime \<and> optimalTime \<noteq> 0
                    then score g
                         + js_round (to_double
                             (200 * to_double (1 - to_double (timeTaken / optimalTime))))
                    else score g);
          total = correctMoves g + incorrectMoves g;
          accuracy = to_double (of_nat (correctMoves g) / of_nat total);
          score2 = (if total \<noteq> 0 \<and> accuracy = 1 then score1 + 150
                    else if total \<noteq> 0 \<and> accuracy \<ge> to_double (9 / 10) then score1 + 100
                    else score1)
      in g\<lparr>endTime := Some now, isGameActive := False, isGameComplete := True,
           score := score2\<rparr>)"

datatype MoveResult =
    GameNotActive
  | NoActionExpected
  | MoveValid string int nat int bool
  | MoveInvalid string int nat int

text \<open>
  \<open>MoveValid message points streak score isComplete\<close> and
  \<open>MoveInvalid message points streak score\<close> are the two result objects with
  \<^verbatim>\<open>success: true\<close>; the hint text of the second is left out.
\<close>

definition processMove :: "int \<Rightarrow> UserAction \<Rightarrow> GameManager \<Rightarrow> MoveResult \<times> GameManager" where
  "processMove now userAction g =
     (if \<not> isGameActive g \<or> isGameComplete g then (GameNotActive, g)
      else
        (case js_nth (gameSteps g) (currentStepIndex g) of
           None \<Rightarrow> (NoActionExpected, g)
         | Some currentStep \<Rightarrow>
             if \<not> isUserAction currentStep then (NoActionExpected, g)
             else
               (case validateMove (currentAlgorithm g) (gameSteps g) (currentStepIndex g)
                       userAction of
                  (validation, steps1) \<Rightarrow>
                    if valid validation then
                      (let g1 = g\<lparr>gameSteps := steps1,
                                  correctMoves := correctMoves g + 1,
                                  streak := streak g + 1\<rparr>;
                           g2 = g1\<lparr>maxStreak := max (maxStreak g1) (streak g1)\<rparr>;
                           baseScore = 100;
                           bonus = (if streak g2 \<ge> 5 then 50 else 0);
                           difficultyMultiplier = difficultyMultipliers (difficulty g2);
                           pts = js_round (of_int (baseScore + bonus) * difficultyMultiplier);
                           g3 = g2\<lparr>score := score g2 + pts\<rparr>;
                           g4 = (if actionType userAction = ''swap''
                                 then g3\<lparr>currentArray :=
                                          applySwap (currentArray g3) (actionIndices userAction)\<rparr>
                                 else g3);
                           g5 = advanceToNextUserAction
                                  (g4\<lparr>currentStepIndex := currentStepIndex g4 + 1\<rparr>);
                           g6 = (if currentStepIndex g5 \<ge> length (gameSteps g5)
                                 then completeGame now g5 else g5)
                       in (MoveValid (message validation) pts (streak g6) (score g6)
                             (isGameComplete g6), g6))
                    else
                      (let g1 = g\<lparr>gameSteps := steps1,
                                  incorrectMoves := incorrectMoves g + 1,
                                  streak := 0\<rparr>;
                           penalty = 50;
                           g2 = g1\<lparr>score := max 0 (score g1 - penalty)\<rparr>
                       in (MoveInvalid (message validation) (- penalty) 0 (score g2), g2)))))"

text \<open>
  \<^verbatim>\<open>skipStep\<close>: at a user-action step the swap is applied and then
  \<^verbatim>\<open>this.currentArray = [...currentStep.arrayState]\<close> replaces the array.
\<close>

definition skipStep :: "int \<Rightarrow> GameManager \<Rightarrow> bool \<times> GameManager" where
  "skipStep now g =
     (if \<not> isGameActive g \<or> isGameComplete g then (False, g)
      else
        (let g1 = (case js_nth (gameSteps g) (currentStepIndex g) of
                     None \<Rightarrow> g
                   | Some currentStep \<Rightarrow>
                       if isUserAction currentStep then
                         (let g0 = (if type currentStep = SWAP
                                    then g\<lparr>currentArray :=
                                            applySwap (currentArray g) (indices currentStep)\<rparr>
                                    else g)
                          in g0\<lparr>currentArray := arrayState currentStep\<rparr>)
                       else g);
             g2 = advanceToNextUserAction (g1\<lparr>currentStepIndex := currentStepIndex g1 + 1\<rparr>);
             g3 = (if currentStepIndex g2 \<ge> length (gameSteps g2)
                   then completeGame now g2 else g2)
         in (True, g3)))"

text \<open>
  \<^verbatim>\<open>startGame\<close>, with the array that \<^verbatim>\<open>generateArray\<close> returned as a parameter
  (it draws on \<^verbatim>\<open>Math.random\<close>), and the clock reading \<open>now\<close>. For the input type
  \<^verbatim>\<open>reversed\<close> the generated array is determined by the difficulty.
\<close>

definition difficultySize :: "Difficulty \<Rightarrow> nat" where
  "difficultySize d = (case d of easy \<Rightarrow> 5 | medium \<Rightarrow> 8 | hard \<Rightarrow> 12 | expert \<Rightarrow> 16)"

definition generateArray_reversed :: "Difficulty \<Rightarrow> int list" where
  "generateArray_reversed d = map (\<lambda>i. int i * 10) (rev [1..<difficultySize d + 1])"

definition startGame :: "int \<Rightarrow> AlgorithmKey \<Rightarrow> Difficulty \<Rightarrow> int list \<Rightarrow> GameManager" where
  "startGame now algorithmKey d generated =
     (advanceToNextUserAction
        \<lparr>currentAlgorithm = algorithmKey,
         currentArray = map Some generated,
         originalArray = generated,
         gameSteps = generateSteps algorithmKey generated,
         currentStepIndex = 0,
         score = 0,
         correctMoves = 0,
         incorrectMoves = 0,
         streak = 0,
         maxStreak = 0,
         startTime = now,
         endTime = None,
         difficulty = d,
         isGameActive = False,
         isGameComplete = False\<rparr>)
     \<lparr>startTime := now, isGameActive := True, isGameComplete := False\<rparr>"

section \<open>Sessions and actions named in the statements\<close>

definition resultPoints :: "MoveResult \<Rightarrow> int option" where
  "resultPoints r =
     (case r of
        MoveValid m p st sc c \<Rightarrow> Some p
      | MoveInvalid m p st sc \<Rightarrow> Some p
      | _ \<Rightarrow> None)"

text \<open>An active session whose cursor is at a step that asks for a user action.\<close>

definition pendingUserAction :: "GameManager \<Rightarrow> bool" where
  "pendingUserAction g =
     (isGameActive g \<and> \<not> isGameComplete g \<and>
      (case js_nth (gameSteps g) (currentStepIndex g) of
         None \<Rightarrow> False
       | Some s \<Rightarrow> isUserAction s))"

text \<open>The engine of the session judges the action valid at the cursor.\<close>

definition judgedValid :: "GameManager \<Rightarrow> UserAction \<Rightarrow> bool" where
  "judgedValid g a =
     valid (fst (validateMove (currentAlgorithm g) (gameSteps g) (currentStepIndex g) a))"

definition swapAction :: "int \<Rightarrow> int \<Rightarrow> UserAction" where
  "swapAction i j = \<lparr>actionType = ''swap'', actionIndices = [i, j], actionValue = None\<rparr>"

definition selectAction :: "int \<Rightarrow> UserAction" where
  "selectAction v = \<lparr>actionType = ''select'', actionIndices = [], actionValue = Some v\<rparr>"

text \<open>
  A run of moves, each with the clock reading at which it is made: the results of
  \<^verbatim>\<open>processMove\<close> in order, and the session after the last move.
\<close>

fun playMoves :: "(int \<times> UserAction) list \<Rightarrow> GameManager \<Rightarrow> MoveResult list \<times> GameManager" where
  "playMoves [] g = ([], g)"
| "playMoves ((now, a) # ms) g =
     (case processMove now a g of
        (r, g1) \<Rightarrow> (case playMoves ms g1 of (rs, g2) \<Rightarrow> (r # rs, g2)))"

text \<open>
  Every move of the run is made in an active session at a user-action step and is
  judged valid by the engine: the moves are consecutive correct moves.
\<close>

fun allCorrect :: "(int \<times> UserAction) list \<Rightarrow> GameManager \<Rightarrow> bool" where
  "allCorrect [] g = True"
| "allCorrect ((now, a) # ms) g =
     (pendingUserAction g \<and> judgedValid g a \<and> allCorrect ms (snd (processMove now a g)))"

text \<open>The points of a correct move that brings the streak to \<open>k\<close>.\<close>

definition correctMovePoints :: "Difficulty \<Rightarrow> nat \<Rightarrow> int" where
  "correctMovePoints d k =
     (case d of
        easy \<Rightarrow> if k \<ge> 5 then 150 else 100
      | medium \<Rightarrow> if k \<ge> 5 then 225 else 150
      | hard \<Rightarrow> if k \<ge> 5 then 300 else 200
      | expert \<Rightarrow> if k \<ge> 5 then 450 else 300)"

definition bubbleGame :: GameManager where
  "bubbleGame = startGame 0 Bubble medium [5, 4, 3, 2, 1]"

definition bubbleMoves :: "(int \<times> UserAction) list" where
  "bubbleMoves = [(1000, swapAction 0 1), (2000, swapAction 2 1), (3000, swapAction 2 3),
                  (4000, swapAction 3 4), (5000, swapAction 0 1), (6000, swapAction 1 2)]"

definition game2 :: GameManager where
  "game2 = (startGame 0 Bubble medium [2, 1])\<lparr>streak := 3, score := 120, incorrectMoves := 1\<rparr>"

text \<open>The merge trace of \<open>[2, 1]\<close>, and a merge game on the easy reversed array.\<close>

definition mergeTrace21 :: "Step list" where
  "mergeTrace21 = MergeSort_generateSteps [2, 1]"

definition mergeGame :: GameManager where
  "mergeGame = startGame 0 Merge easy (generateArray_reversed easy)"

text \<open>
  A heap game on the easy reversed array, two skips in: the cursor is at the swap of
  positions 1 and 3 inside \<^verbatim>\<open>heapify\<close>, which the swap of the root follows at once.
\<close>

definition heapGame :: GameManager where
  "heapGame = snd (skipStep 2000 (snd (skipStep 1000
                 (startGame 0 Heap easy (generateArray_reversed easy)))))"


section \<open>Properties of arrays and traces\<close>

subsection \<open>Traces of the swap-based engines\<close>

text \<open>
  The swap steps of a trace, applied in order to an array with the exchange of
  \<^verbatim>\<open>applySwap\<close>.
\<close>

fun replaySwaps :: "Step list \<Rightarrow> jsarr \<Rightarrow> jsarr" where
  "replaySwaps [] a = a"
| "replaySwaps (s # ss) a =
     replaySwaps ss (if type s = SWAP then applySwap a (indices s) else a)"

text \<open>
  The snapshots of a trace follow one another from \<open>a\<close>: each step shows the array as
  it is when the step is pushed, and a swap step is followed by its exchange.
\<close>

fun snapshots_before :: "jsarr \<Rightarrow> Step list \<Rightarrow> bool" where
  "snapshots_before a [] = True"
| "snapshots_before a (s # ss) =
     (arrayState s = a
      \<and> snapshots_before (if type s = SWAP then applySwap a (indices s) else a) ss)"

text \<open>Two indices inside an array of length \<open>n\<close>, the first smaller than the second.\<close>

definition swap_indices_ok :: "nat \<Rightarrow> int list \<Rightarrow> bool" where
  "swap_indices_ok n idx =
     (case idx of [i, j] \<Rightarrow> 0 \<le> i \<and> i < j \<and> j < int n | _ \<Rightarrow> False)"

text \<open>
  The shape of a step of a swap-based engine: the snapshot has the length of the input,
  the values are the entries of the snapshot at the indices, and the user actions are
  the swaps.
\<close>

definition wf_step :: "nat \<Rightarrow> Step \<Rightarrow> bool" where
  "wf_step n s =
     (length (arrayState s) = n
      \<and> vals s = map (js_get (arrayState s)) (indices s)
      \<and> isUserAction s = (type s = SWAP)
      \<and> (type s = SWAP \<longrightarrow> swap_indices_ok n (indices s)))"

text \<open>
  The invariant of the swap-based engines, between the input \<open>a0\<close>, the steps pushed so
  far and the working array \<open>arr\<close>.
\<close>

definition Inv :: "nat \<Rightarrow> jsarr \<Rightarrow> Step list \<Rightarrow> jsarr \<Rightarrow> bool" where
  "Inv n a0 ss arr =
     (snapshots_before a0 ss \<and> replaySwaps ss a0 = arr \<and> length arr = n
      \<and> mset arr = mset a0 \<and> (\<forall>s \<in> set ss. wf_step n s))"

text \<open>A trace that closes with a sorted mark.\<close>

definition ends_sorted :: "Step list \<Rightarrow> bool" where
  "ends_sorted ss = (ss \<noteq> [] \<and> type (last ss) = SORTED)"

text \<open>What the swap-based engines are shown to do.\<close>

definition sorts_by_swaps :: "Step list \<Rightarrow> int list \<Rightarrow> bool" where
  "sorts_by_swaps tr xs =
     (\<exists>arr. Inv (length xs) (map Some xs) tr arr \<and> sorted arr \<and> (tr = [] \<or> ends_sorted tr))"

subsection \<open>Sorted parts of the working array\<close>

text \<open>
  Bubble sort: the entries from \<open>m\<close> on are in their final places. Selection sort: so
  are the entries before \<open>m\<close>. Insertion sort: the entries before \<open>m\<close> are in order.
\<close>

definition tail_done :: "jsarr \<Rightarrow> int \<Rightarrow> bool" where
  "tail_done a m =
     (\<forall>k l. 0 \<le> k \<and> k \<le> l \<and> m \<le> l \<and> l < int (length a) \<longrightarrow> js_get a k \<le> js_get a l)"

definition head_done :: "jsarr \<Rightarrow> int \<Rightarrow> bool" where
  "head_done a m =
     (\<forall>k l. 0 \<le> k \<and> k < m \<and> k \<le> l \<and> l < int (length a) \<longrightarrow> js_get a k \<le> js_get a l)"

definition prefix_sorted :: "jsarr \<Rightarrow> int \<Rightarrow> bool" where
  "prefix_sorted a m = (\<forall>k l. 0 \<le> k \<and> k \<le> l \<and> l < m \<longrightarrow> js_get a k \<le> js_get a l)"

text \<open>
  The loop invariant of the shifting loop: the key sits at \<open>j + 1\<close>, the entries of
  \<open>0..i\<close> other than the key are in order, and those behind the key exceed it.
\<close>

definition hole_inv :: "jsarr \<Rightarrow> int \<Rightarrow> int \<Rightarrow> int option \<Rightarrow> bool" where
  "hole_inv a i j key =
     (js_get a (j + 1) = key
      \<and> (\<forall>k l. 0 \<le> k \<and> k \<le> l \<and> l \<le> i \<and> k \<noteq> j + 1 \<and> l \<noteq> j + 1 \<longrightarrow> js_get a k \<le> js_get a l)
      \<and> (\<forall>k. j + 1 < k \<and> k \<le> i \<longrightarrow> key < js_get a k))"

text \<open>
  Quick and merge sort work on a range \<open>lo..hi\<close>: the entries outside are untouched,
  the entries inside end in order.
\<close>

definition frame :: "jsarr \<Rightarrow> jsarr \<Rightarrow> int \<Rightarrow> int \<Rightarrow> bool" where
  "frame a b lo hi = (\<forall>k. k < lo \<or> hi < k \<longrightarrow> js_get b k = js_get a k)"

definition range_sorted :: "jsarr \<Rightarrow> int \<Rightarrow> int \<Rightarrow> bool" where
  "range_sorted a lo hi = (\<forall>k l. lo \<le> k \<and> k \<le> l \<and> l \<le> hi \<longrightarrow> js_get a k \<le> js_get a l)"

text \<open>The entries of a range, as a list.\<close>

definition seg :: "jsarr \<Rightarrow> int \<Rightarrow> int \<Rightarrow> int option list" where
  "seg a lo hi = map (js_get a) [lo..hi]"

text \<open>The max-heap property at node \<open>i\<close> of a heap of size \<open>n\<close>, and from \<open>lo\<close> on.\<close>

definition heap_at :: "jsarr \<Rightarrow> int \<Rightarrow> int \<Rightarrow> bool" where
  "heap_at a n i =
     ((2 * i + 1 < n \<longrightarrow> js_get a (2 * i + 1) \<le> js_get a i)
      \<and> (2 * i + 2 < n \<longrightarrow> js_get a (2 * i + 2) \<le> js_get a i))"

definition heap_from :: "jsarr \<Rightarrow> int \<Rightarrow> int \<Rightarrow> bool" where
  "heap_from a n lo = (\<forall>i. lo \<le> i \<and> i < n \<longrightarrow> heap_at a n i)"

text \<open>
  The heap property holds from \<open>lo\<close> on but possibly at \<open>h\<close>, and the children of
  \<open>h\<close> do not exceed the parent of \<open>h\<close>, if that lies in the range.
\<close>

definition heap_except :: "jsarr \<Rightarrow> int \<Rightarrow> int \<Rightarrow> int \<Rightarrow> bool" where
  "heap_except a n lo h =
     ((\<forall>i. lo \<le> i \<and> i < n \<and> i \<noteq> h \<longrightarrow> heap_at a n i)
      \<and> (\<forall>p c. lo \<le> p \<and> (h = 2 * p + 1 \<or> h = 2 * p + 2) \<and> (c = 2 * h + 1 \<or> c = 2 * h + 2)
               \<and> c < n \<longrightarrow> js_get a c \<le> js_get a p))"

subsection \<open>Traces of merge sort\<close>

text \<open>
  In a merge trace the array changes after a user-action step, by a write at the index
  of the step; \<open>mchain a ss b\<close> says that the snapshots of \<open>ss\<close> follow one another in
  this way from \<open>a\<close>, and that the array is \<open>b\<close> after the last step.
\<close>

fun mchain :: "jsarr \<Rightarrow> Step list \<Rightarrow> jsarr \<Rightarrow> bool" where
  "mchain a [] b = (a = b)"
| "mchain a (s # ss) b =
     (arrayState s = a
      \<and> (if isUserAction s
          then \<exists>v. mchain (js_set a (case indices s of [] \<Rightarrow> 0 | k # _ \<Rightarrow> k) v) ss b
          else mchain a ss b))"

text \<open>The shape of a step of merge sort, and the invariant of its engine.\<close>

definition select_index_ok :: "nat \<Rightarrow> int list \<Rightarrow> bool" where
  "select_index_ok n idx = (case idx of [k] \<Rightarrow> 0 \<le> k \<and> k < int n | _ \<Rightarrow> False)"

definition wf_mstep :: "nat \<Rightarrow> Step \<Rightarrow> bool" where
  "wf_mstep n s =
     (length (arrayState s) = n
      \<and> vals s = map (js_get (arrayState s)) (indices s)
      \<and> type s \<noteq> SWAP
      \<and> (isUserAction s \<longrightarrow> type s = SELECT \<and> select_index_ok n (indices s)))"

definition MInv :: "nat \<Rightarrow> jsarr \<Rightarrow> Step list \<Rightarrow> jsarr \<Rightarrow> bool" where
  "MInv n a0 ss arr =
     (mchain a0 ss arr \<and> length arr = n \<and> (\<forall>s \<in> set ss. wf_mstep n s))"

text \<open>What merge sort is shown to do.\<close>

definition sorts_by_merge :: "Step list \<Rightarrow> int list \<Rightarrow> bool" where
  "sorts_by_merge tr xs =
     (\<exists>arr. MInv (length xs) (map Some xs) tr arr \<and> sorted arr
            \<and> mset arr = mset (map Some xs) \<and> (tr = [] \<or> ends_sorted tr))"

subsection \<open>Successive snapshots of the swap-based engines\<close>






subsection \<open>Placements of merge sort\<close>














subsection \<open>Replay of the placements\<close>

text \<open>
  The replay of a trace as the specification words it: a swap step exchanges the two
  entries; a user-action select step writes the recorded value at the recorded index.
\<close>

fun replay_as_specified :: "Step list \<Rightarrow> jsarr \<Rightarrow> jsarr" where
  "replay_as_specified [] a = a"
| "replay_as_specified (s # ss) a =
     replay_as_specified ss
       (if type s = SWAP then applySwap a (indices s)
        else if type s = SELECT \<and> isUserAction s then
          (case (indices s, vals s) of (p # _, v # _) \<Rightarrow> js_set a p v | _ \<Rightarrow> a)
        else a)"


section \<open>Array and trace invariants of the engines\<close>

subsection \<open>Reads and writes inside the array\<close>

lemma js_get_in: "0 \<le> i \<Longrightarrow> i < int (length a) \<Longrightarrow> js_get a i = a ! nat i"
  by (simp add: js_get_def)

lemma length_js_set: "0 \<le> i \<Longrightarrow> i < int (length a) \<Longrightarrow> length (js_set a i v) = length a"
  by (simp add: js_set_def)

lemma js_get_js_set:
  "0 \<le> i \<Longrightarrow> i < int (length a) \<Longrightarrow> js_get (js_set a i v) k = (if k = i then v else js_get a k)"
  by (auto simp: js_get_def js_set_def nth_list_update nat_eq_iff)

lemma length_js_swap:
  "0 \<le> i \<Longrightarrow> i < int (length a) \<Longrightarrow> 0 \<le> j \<Longrightarrow> j < int (length a) \<Longrightarrow>
     length (js_swap a i j) = length a"
  by (simp add: js_swap_def Let_def length_js_set)

lemma js_get_js_swap:
  "0 \<le> i \<Longrightarrow> i < int (length a) \<Longrightarrow> 0 \<le> j \<Longrightarrow> j < int (length a) \<Longrightarrow>
     js_get (js_swap a i j) k
       = (if k = j then js_get a i else if k = i then js_get a j else js_get a k)"
  by (simp add: js_swap_def Let_def js_get_js_set length_js_set)

lemma js_swap_list:
  "0 \<le> i \<Longrightarrow> i < int (length a) \<Longrightarrow> 0 \<le> j \<Longrightarrow> j < int (length a) \<Longrightarrow>
     js_swap a i j = a[nat i := a ! nat j, nat j := a ! nat i]"
  by (simp add: js_swap_def Let_def js_set_def js_get_def)

lemma mset_js_swap:
  "0 \<le> i \<Longrightarrow> i < int (length a) \<Longrightarrow> 0 \<le> j \<Longrightarrow> j < int (length a) \<Longrightarrow>
     mset (js_swap a i j) = mset a"
  by (simp add: js_swap_list mset_swap)

lemma js_swap_same: "0 \<le> i \<Longrightarrow> i < int (length a) \<Longrightarrow> js_swap a i i = a"
  by (simp add: js_swap_list)

lemma js_shift_is_swap:
  assumes "0 \<le> j" "j + 1 < int (length a)" "js_get a (j + 1) = key"
  shows "js_set (js_set a (j + 1) (js_get a j)) j key = js_swap a j (j + 1)"
proof -
  have n: "nat (j + 1) = Suc (nat j)" using assms(1) by simp
  have k: "key = a ! Suc (nat j)" using assms by (simp add: js_get_def n)
  show ?thesis using assms(1,2)
    by (simp add: js_swap_list js_set_def js_get_def n k list_update_swap)
qed

text \<open>Arrays without \<^verbatim>\<open>undefined\<close> entries: comparisons are the order of the numbers.\<close>

lemma js_get_defined:
  "None \<notin> set a \<Longrightarrow> 0 \<le> i \<Longrightarrow> i < int (length a) \<Longrightarrow> \<exists>v. js_get a i = Some v"
proof -
  assume a: "None \<notin> set a" "0 \<le> i" "i < int (length a)"
  then have "a ! nat i \<in> set a" by (intro nth_mem) simp
  with a have "a ! nat i \<noteq> None" by metis
  with a show ?thesis by (auto simp: js_get_def)
qed

lemma js_gt_iff: "x \<noteq> None \<Longrightarrow> y \<noteq> None \<Longrightarrow> js_gt x y = (y < x)"
  by (cases x; cases y) auto

lemma js_lt_iff: "x \<noteq> None \<Longrightarrow> y \<noteq> None \<Longrightarrow> js_lt x y = (x < y)"
  by (cases x; cases y) auto

lemma js_le_iff: "x \<noteq> None \<Longrightarrow> y \<noteq> None \<Longrightarrow> js_le x y = (x \<le> y)"
  by (cases x; cases y) auto

lemma sorted_js_getI:
  assumes "\<And>k l. 0 \<le> k \<Longrightarrow> k \<le> l \<Longrightarrow> l < int (length a) \<Longrightarrow> js_get a k \<le> js_get a l"
  shows "sorted a"
proof (rule sorted_iff_nth_mono[THEN iffD2], intro allI impI)
  fix i j assume "i \<le> j" "j < length a"
  then show "a ! i \<le> a ! j"
    using assms[of "int i" "int j"] by (simp add: js_get_def)
qed

lemma sort_map_Some: "sort (map Some xs) = map Some (sort (xs :: int list))"
  by (rule properties_for_sort) (simp_all add: sorted_map)

lemma sorted_perm_is_sort:
  "sorted a \<Longrightarrow> mset a = mset (map Some xs) \<Longrightarrow> a = map Some (sort (xs :: int list))"
  using properties_for_sort[of a "map Some xs"] by (simp add: sort_map_Some)

lemma mset_defined: "mset a = mset (map Some xs) \<Longrightarrow> None \<notin> set a"
  by (metis ex_map_conv mset_eq_setD option.distinct(1))

lemma replaySwaps_append [simp]:
  "replaySwaps (xs @ ys) a = replaySwaps ys (replaySwaps xs a)"
  by (induction xs arbitrary: a) auto

lemma snapshots_before_append [simp]:
  "snapshots_before a (xs @ ys)
     = (snapshots_before a xs \<and> snapshots_before (replaySwaps xs a) ys)"
  by (induction xs arbitrary: a) auto

lemma Inv_nil: "Inv (length a0) a0 [] a0"
  by (simp add: Inv_def)

lemma Inv_step:
  "Inv n a0 ss arr \<Longrightarrow> t \<noteq> SWAP \<Longrightarrow> Inv n a0 (ss @ [createStep t idx arr False]) arr"
  by (auto simp: Inv_def createStep_def wf_step_def)

lemma Inv_swap:
  "Inv n a0 ss arr \<Longrightarrow> 0 \<le> i \<Longrightarrow> i < j \<Longrightarrow> j < int n \<Longrightarrow>
     Inv n a0 (ss @ [createStep SWAP [i, j] arr True]) (js_swap arr i j)"
  by (auto simp: Inv_def createStep_def wf_step_def swap_indices_ok_def applySwap_def
      length_js_swap mset_js_swap)

lemma append2: "ss @ [a, b] = (ss @ [a]) @ [b]"
  by simp

lemma Inv_length: "Inv n a0 ss arr \<Longrightarrow> length arr = n"
  by (simp add: Inv_def)

subsection \<open>Bubble sort\<close>

lemma bubble_inner_Inv:
  "Inv n a0 ss arr \<Longrightarrow> 0 \<le> j \<Longrightarrow> 0 \<le> i \<Longrightarrow> bubble_inner (int n) i j arr sw ss = (arr', sw', ss') \<Longrightarrow>
     Inv n a0 ss' arr'"
proof (induction "int n" i j arr sw ss rule: bubble_inner.induct)
  case (1 i j arr sw ss)
  show ?case
  proof (cases "j < int n - i - 1")
    case False
    then show ?thesis using "1.prems" by (simp add: bubble_inner.simps)
  next
    case True
    note c = Inv_step[OF "1.prems"(1), of COMPARE "[j, j + 1]"]
    show ?thesis
    proof (cases "js_gt (js_get arr j) (js_get arr (j + 1))")
      case gt: True
      have "Inv n a0 (ss @ [createStep COMPARE [j, j + 1] arr False,
                            createStep SWAP [j, j + 1] arr True]) (js_swap arr j (j + 1))"
        unfolding append2 using True "1.prems"(2,3) by (intro Inv_swap c) auto
      then show ?thesis
        using "1.hyps"(1)[OF True gt] "1.prems" True gt
        by (simp add: bubble_inner.simps[of "int n" i j])
    next
      case ngt: False
      show ?thesis
        using "1.hyps"(2)[OF True ngt] "1.prems" True ngt c
        by (simp add: bubble_inner.simps[of "int n" i j])
    qed
  qed
qed

lemma mark_loop_Inv_aux:
  "Inv n a0 ss arr \<Longrightarrow> Inv n a0 (bubble_mark m i k arr ss) arr"
proof (induction m i k arr ss rule: bubble_mark.induct)
  case (1 m i k arr ss)
  then show ?case
    by (subst bubble_mark.simps) (auto intro: Inv_step)
qed

lemma mark_all_sorted_Inv:
  "Inv n a0 ss arr \<Longrightarrow> Inv n a0 (mark_all_sorted m i arr ss) arr"
proof (induction m i arr ss rule: mark_all_sorted.induct)
  case (1 m i arr ss)
  then show ?case
    by (subst mark_all_sorted.simps) (auto intro: Inv_step)
qed

lemma bubble_outer_Inv:
  "Inv n a0 ss arr \<Longrightarrow> 0 \<le> i \<Longrightarrow> bubble_outer (int n) i arr ss = (arr', ss') \<Longrightarrow> Inv n a0 ss' arr'"
proof (induction "int n" i arr ss rule: bubble_outer.induct)
  case (1 i arr ss)
  show ?case
  proof (cases "i < int n - 1")
    case False
    then show ?thesis using "1.prems" by (simp add: bubble_outer.simps)
  next
    case True
    obtain arr1 sw ss1 where in1: "bubble_inner (int n) i 0 arr False ss = (arr1, sw, ss1)"
      by (cases "bubble_inner (int n) i 0 arr False ss") auto
    have I1: "Inv n a0 ss1 arr1"
      using bubble_inner_Inv[OF "1.prems"(1) _ "1.prems"(2) in1] by simp
    have I2: "Inv n a0 (ss1 @ [createStep SORTED [int n - i - 1] arr1 False]) arr1"
      by (intro Inv_step I1) simp
    show ?thesis
    proof (cases sw)
      case False
      then show ?thesis
        using "1.prems"(3) True in1 mark_loop_Inv_aux[OF I2, of "int n" i 0]
        by (auto simp: bubble_outer.simps[of "int n" i])
    next
      case sw: True
      have "bubble_outer (int n) (i + 1) arr1 (ss1 @ [createStep SORTED [int n - i - 1] arr1 False]) = (arr', ss')"
        using "1.prems"(3) True in1 sw by (simp add: bubble_outer.simps[of "int n" i])
      then show ?thesis
        using "1.hyps"[OF True in1[symmetric] refl _ I2] sw "1.prems"(2) by simp
    qed
  qed
qed

lemma tail_done_sorted: "tail_done a m \<Longrightarrow> m \<le> 1 \<Longrightarrow> sorted a"
proof (rule sorted_js_getI)
  fix k l assume a: "tail_done a m" "m \<le> 1" "0 \<le> k" "k \<le> l" "l < int (length a)"
  show "js_get a k \<le> js_get a l"
  proof (cases "l = 0")
    case True
    then show ?thesis using a by simp
  next
    case False
    then show ?thesis using a unfolding tail_done_def by auto
  qed
qed

lemma set_js_swap:
  "0 \<le> i \<Longrightarrow> i < int (length a) \<Longrightarrow> 0 \<le> j \<Longrightarrow> j < int (length a) \<Longrightarrow>
     set (js_swap a i j) = set a"
  using mset_js_swap[of i a j] by (metis mset_eq_setD)

lemma not_js_gt_le:
  "None \<notin> set a \<Longrightarrow> 0 \<le> i \<Longrightarrow> i < int (length a) \<Longrightarrow> 0 \<le> j \<Longrightarrow> j < int (length a) \<Longrightarrow>
     js_gt (js_get a i) (js_get a j) = (js_get a j < js_get a i)"
  using js_get_defined[of a i] js_get_defined[of a j] by (auto simp: js_gt_iff)

lemma not_js_lt_le:
  "None \<notin> set a \<Longrightarrow> 0 \<le> i \<Longrightarrow> i < int (length a) \<Longrightarrow> 0 \<le> j \<Longrightarrow> j < int (length a) \<Longrightarrow>
     js_lt (js_get a i) (js_get a j) = (js_get a i < js_get a j)"
  using js_get_defined[of a i] js_get_defined[of a j] by (auto simp: js_lt_iff)

lemma bubble_inner_sorts:
  assumes "bubble_inner n i j arr sw ss = (arr', sw', ss')"
    and "n = int (length arr)" "None \<notin> set arr" "0 \<le> j" "0 \<le> i" "j \<le> n - i - 1"
    and "tail_done arr (n - i)"
    and "\<forall>k. 0 \<le> k \<and> k \<le> j \<longrightarrow> js_get arr k \<le> js_get arr j"
    and "\<not> sw \<longrightarrow> (\<forall>k l. 0 \<le> k \<and> k \<le> l \<and> l \<le> j \<longrightarrow> js_get arr k \<le> js_get arr l)"
  shows "tail_done arr' (n - i - 1) \<and> (\<not> sw' \<longrightarrow> sorted arr')
       \<and> length arr' = length arr \<and> None \<notin> set arr'"
  using assms
proof (induction n i j arr sw ss rule: bubble_inner.induct)
  case (1 n i j arr sw ss)
  note len = "1.prems"(2) and df = "1.prems"(3) and j0 = "1.prems"(4) and i0 = "1.prems"(5)
    and jb = "1.prems"(6) and td = "1.prems"(7) and mx = "1.prems"(8) and srt = "1.prems"(9)
  show ?case
  proof (cases "j < n - i - 1")
    case False
    then have je: "j = n - i - 1" using jb by simp
    have r: "arr' = arr" "sw' = sw" using "1.prems"(1) False by (simp_all add: bubble_inner.simps)
    have t: "tail_done arr (n - i - 1)"
      unfolding tail_done_def
    proof (intro allI impI)
      fix k l assume a: "0 \<le> k \<and> k \<le> l \<and> n - i - 1 \<le> l \<and> l < int (length arr)"
      show "js_get arr k \<le> js_get arr l"
      proof (cases "l = j")
        case True
        then show ?thesis using mx a by simp
      next
        case False
        then show ?thesis using td a je unfolding tail_done_def by auto
      qed
    qed
    have s: "\<not> sw \<Longrightarrow> sorted arr"
    proof (rule sorted_js_getI)
      fix k l assume a: "\<not> sw" "0 \<le> k" "k \<le> l" "l < int (length arr)"
      show "js_get arr k \<le> js_get arr l"
      proof (cases "l \<le> j")
        case True
        then show ?thesis using srt a by simp
      next
        case False
        then show ?thesis using td a je unfolding tail_done_def by auto
      qed
    qed
    show ?thesis using r t s df by auto
  next
    case True
    have rj: "0 \<le> j" "j < int (length arr)" "0 \<le> j + 1" "j + 1 < int (length arr)"
      using True j0 i0 len by auto
    show ?thesis
    proof (cases "js_gt (js_get arr j) (js_get arr (j + 1))")
      case gt: True
      let ?a = "js_swap arr j (j + 1)"
      have lt: "js_get arr (j + 1) < js_get arr j"
        using gt not_js_gt_le[OF df rj] by simp
      have g: "\<And>k. js_get ?a k = (if k = j + 1 then js_get arr j
                 else if k = j then js_get arr (j + 1) else js_get arr k)"
        using js_get_js_swap[OF rj] by simp
      have l2: "length ?a = length arr" using length_js_swap[OF rj] .
      have d2: "None \<notin> set ?a" using set_js_swap[OF rj] df by simp
      have td2: "tail_done ?a (n - i)"
        unfolding tail_done_def
      proof (intro allI impI)
        fix k l assume a: "0 \<le> k \<and> k \<le> l \<and> n - i \<le> l \<and> l < int (length ?a)"
        then have l: "l \<noteq> j" "l \<noteq> j + 1" "l < int (length arr)" using True l2 by auto
        have "js_get arr k \<le> js_get arr l" "js_get arr j \<le> js_get arr l"
          "js_get arr (j + 1) \<le> js_get arr l"
          using td a l True j0 unfolding tail_done_def by auto
        then show "js_get ?a k \<le> js_get ?a l" using l by (simp add: g)
      qed
      have mx2: "\<forall>k. 0 \<le> k \<and> k \<le> j + 1 \<longrightarrow> js_get ?a k \<le> js_get ?a (j + 1)"
      proof (intro allI impI)
        fix k assume a: "0 \<le> k \<and> k \<le> j + 1"
        show "js_get ?a k \<le> js_get ?a (j + 1)"
          using mx a lt by (auto simp: g)
      qed
      have "bubble_inner n i (j + 1) ?a True
              (ss @ [createStep COMPARE [j, j + 1] arr False,
                     createStep SWAP [j, j + 1] arr True]) = (arr', sw', ss')"
        using "1.prems"(1) True gt by (simp add: bubble_inner.simps[of n i j])
      from "1.IH"(1)[OF True gt this] len l2 d2 j0 i0 True td2 mx2
      show ?thesis by simp
    next
      case ngt: False
      have le: "js_get arr j \<le> js_get arr (j + 1)"
        using ngt not_js_gt_le[OF df rj] by simp
      have mx2: "\<forall>k. 0 \<le> k \<and> k \<le> j + 1 \<longrightarrow> js_get arr k \<le> js_get arr (j + 1)"
      proof (intro allI impI)
        fix k assume a: "0 \<le> k \<and> k \<le> j + 1"
        show "js_get arr k \<le> js_get arr (j + 1)"
        proof (cases "k = j + 1")
          case True
          then show ?thesis by simp
        next
          case False
          then have "js_get arr k \<le> js_get arr j" using mx a by simp
          then show ?thesis using le by (rule order_trans)
        qed
      qed
      have srt2: "\<not> sw \<longrightarrow> (\<forall>k l. 0 \<le> k \<and> k \<le> l \<and> l \<le> j + 1 \<longrightarrow> js_get arr k \<le> js_get arr l)"
      proof (intro allI impI)
        fix k l assume a: "\<not> sw" "0 \<le> k \<and> k \<le> l \<and> l \<le> j + 1"
        show "js_get arr k \<le> js_get arr l"
        proof (cases "l = j + 1")
          case True
          then show ?thesis using mx2 a by simp
        next
          case False
          then show ?thesis using srt a by simp
        qed
      qed
      have "bubble_inner n i (j + 1) arr sw
              (ss @ [createStep COMPARE [j, j + 1] arr False]) = (arr', sw', ss')"
        using "1.prems"(1) True ngt by (simp add: bubble_inner.simps[of n i j])
      from "1.IH"(2)[OF True ngt this] len df j0 i0 True td mx2 srt2
      show ?thesis by simp
    qed
  qed
qed

lemma bubble_outer_sorts:
  assumes "bubble_outer n i arr ss = (arr', ss')"
    and "n = int (length arr)" "None \<notin> set arr" "0 \<le> i" "tail_done arr (n - i)"
  shows "sorted arr'"
  using assms
proof (induction n i arr ss rule: bubble_outer.induct)
  case (1 n i arr ss)
  show ?case
  proof (cases "i < n - 1")
    case False
    then have "arr' = arr" using "1.prems"(1) by (simp add: bubble_outer.simps)
    then show ?thesis using tail_done_sorted[OF "1.prems"(5)] False by simp
  next
    case True
    obtain arr1 sw ss1 where in1: "bubble_inner n i 0 arr False ss = (arr1, sw, ss1)"
      by (cases "bubble_inner n i 0 arr False ss") auto
    have r: "tail_done arr1 (n - i - 1) \<and> (\<not> sw \<longrightarrow> sorted arr1)
       \<and> length arr1 = length arr \<and> None \<notin> set arr1"
    proof (rule bubble_inner_sorts[OF in1 "1.prems"(2,3) _ "1.prems"(4) _ "1.prems"(5)])
      show "\<forall>k. 0 \<le> k \<and> k \<le> 0 \<longrightarrow> js_get arr k \<le> js_get arr 0" by auto
      show "\<not> False \<longrightarrow> (\<forall>k l. 0 \<le> k \<and> k \<le> l \<and> l \<le> 0 \<longrightarrow> js_get arr k \<le> js_get arr l)"
      proof (intro allI impI)
        fix k l :: int assume "0 \<le> k \<and> k \<le> l \<and> l \<le> 0"
        then have "k = l" by linarith
        then show "js_get arr k \<le> js_get arr l" by simp
      qed
    qed (use True in auto)
    show ?thesis
    proof (cases sw)
      case False
      then show ?thesis using "1.prems"(1) True in1 r
        by (simp add: bubble_outer.simps[of n i])
    next
      case sw: True
      have e: "bubble_outer n (i + 1) arr1 (ss1 @ [createStep SORTED [n - i - 1] arr1 False]) = (arr', ss')"
        using "1.prems"(1) True in1 sw by (simp add: bubble_outer.simps[of n i])
      have t: "tail_done arr1 (n - (i + 1))" using r by (simp add: algebra_simps)
      show ?thesis
        using "1.IH"[OF True in1[symmetric] refl _ e] sw r t "1.prems"(2,4) by simp
    qed
  qed
qed

lemma ends_sorted_push [simp]: "ends_sorted (ss @ [createStep SORTED idx arr ua])"
  by (simp add: ends_sorted_def createStep_def)

lemma bubble_mark_ends: "ends_sorted ss \<Longrightarrow> ends_sorted (bubble_mark m i k arr ss)"
proof (induction m i k arr ss rule: bubble_mark.induct)
  case (1 m i k arr ss)
  then show ?case by (subst bubble_mark.simps) auto
qed

lemma mark_all_sorted_ends: "ends_sorted ss \<Longrightarrow> ends_sorted (mark_all_sorted m i arr ss)"
proof (induction m i arr ss rule: mark_all_sorted.induct)
  case (1 m i arr ss)
  then show ?case by (subst mark_all_sorted.simps) auto
qed

lemma mark_all_sorted_ends': "i < m \<Longrightarrow> ends_sorted (mark_all_sorted m i arr ss)"
  by (subst mark_all_sorted.simps) (simp add: mark_all_sorted_ends)

lemma mark_all_sorted_none: "\<not> i < m \<Longrightarrow> mark_all_sorted m i arr ss = ss"
  by (subst mark_all_sorted.simps) simp

lemma Inv_last:
  assumes "Inv n a0 ss arr" "ends_sorted ss"
  shows "arrayState (last ss) = arr"
proof -
  from assms(2) obtain bs s where ss: "ss = bs @ [s]" and t: "type s = SORTED"
    unfolding ends_sorted_def by (metis append_butlast_last_id)
  show ?thesis using assms(1) t unfolding Inv_def ss by auto
qed

lemma bubble_outer_ends:
  "bubble_outer n i arr ss = (arr', ss') \<Longrightarrow> ss' = ss \<or> ends_sorted ss'"
proof (induction n i arr ss rule: bubble_outer.induct)
  case (1 n i arr ss)
  show ?case
  proof (cases "i < n - 1")
    case False
    then show ?thesis using "1.prems" by (simp add: bubble_outer.simps)
  next
    case True
    obtain arr1 sw ss1 where in1: "bubble_inner n i 0 arr False ss = (arr1, sw, ss1)"
      by (cases "bubble_inner n i 0 arr False ss") auto
    show ?thesis
    proof (cases sw)
      case False
      then show ?thesis using "1.prems" True in1
        by (auto simp: bubble_outer.simps[of n i] intro!: bubble_mark_ends)
    next
      case sw: True
      have e: "bubble_outer n (i + 1) arr1 (ss1 @ [createStep SORTED [n - i - 1] arr1 False]) = (arr', ss')"
        using "1.prems"(1) True in1 sw by (simp add: bubble_outer.simps[of n i])
      show ?thesis
        using "1.IH"[OF True in1[symmetric] refl _ e] sw by auto
    qed
  qed
qed

lemma tail_done_start: "tail_done a (int (length a))"
  unfolding tail_done_def by (intro allI impI) linarith

lemma BubbleSort_sorts: "sorts_by_swaps (BubbleSort_generateSteps xs) xs"
proof -
  obtain arr1 ss where o: "bubble_outer (int (length xs)) 0 (map Some xs) [] = (arr1, ss)"
    by (cases "bubble_outer (int (length xs)) 0 (map Some xs) []") auto
  have I: "Inv (length xs) (map Some xs) ss arr1"
    using bubble_outer_Inv[OF _ _ o] Inv_nil[of "map Some xs"] by simp
  have S: "sorted arr1"
    using bubble_outer_sorts[OF o] tail_done_start[of "map Some xs"] by auto
  have E: "ss = [] \<or> ends_sorted ss" using bubble_outer_ends[OF o] .
  show ?thesis
  proof (cases "length ss > 0 \<and> js_nth (indices (last ss)) 0 \<noteq> Some 0")
    case True
    then have "BubbleSort_generateSteps xs = ss @ [createStep SORTED [0] arr1 False]"
      using o by (simp add: BubbleSort_generateSteps_def)
    then show ?thesis unfolding sorts_by_swaps_def
      using Inv_step[OF I, of SORTED "[0]"] S by auto
  next
    case False
    then have "BubbleSort_generateSteps xs = ss"
      using o by (simp add: BubbleSort_generateSteps_def)
    then show ?thesis unfolding sorts_by_swaps_def using I S E by auto
  qed
qed

subsection \<open>Selection sort\<close>

lemma head_done_sorted: "head_done a m \<Longrightarrow> int (length a) - 1 \<le> m \<Longrightarrow> sorted a"
proof (rule sorted_js_getI)
  fix k l assume a: "head_done a m" "int (length a) - 1 \<le> m" "0 \<le> k" "k \<le> l" "l < int (length a)"
  show "js_get a k \<le> js_get a l"
  proof (cases "k < m")
    case True
    then show ?thesis using a unfolding head_done_def by auto
  next
    case False
    then have "k = l" using a by linarith
    then show ?thesis by simp
  qed
qed

lemma head_done_start: "head_done a 0"
  unfolding head_done_def by (intro allI impI) linarith

lemma selection_inner_Inv:
  "Inv n a0 ss arr \<Longrightarrow> selection_inner m j arr mi ss = (mi', ss') \<Longrightarrow> Inv n a0 ss' arr"
proof (induction m j arr mi ss rule: selection_inner.induct)
  case (1 m j arr mi ss)
  show ?case
  proof (cases "j < m")
    case False
    then show ?thesis using "1.prems" by (simp add: selection_inner.simps)
  next
    case True
    note c = Inv_step[OF "1.prems"(1), of COMPARE "[mi, j]"]
    show ?thesis
    proof (cases "js_lt (js_get arr j) (js_get arr mi)")
      case lt: True
      have "Inv n a0 (ss @ [createStep COMPARE [mi, j] arr False,
                            createStep SELECT [j] arr False]) arr"
        unfolding append2 by (intro Inv_step c) auto
      then show ?thesis
        using "1.IH"(1)[OF True lt] "1.prems" True lt
        by (simp add: selection_inner.simps[of m j])
    next
      case nlt: False
      show ?thesis
        using "1.IH"(2)[OF True nlt] "1.prems" True nlt c
        by (simp add: selection_inner.simps[of m j])
    qed
  qed
qed

lemma selection_inner_min:
  assumes "selection_inner n j arr mi ss = (mi', ss')"
    and "n = int (length arr)" "None \<notin> set arr" "0 \<le> i" "i \<le> mi" "mi < j" "j \<le> n"
    and "\<forall>k. i \<le> k \<and> k < j \<longrightarrow> js_get arr mi \<le> js_get arr k"
  shows "i \<le> mi' \<and> mi' < n \<and> (\<forall>k. i \<le> k \<and> k < n \<longrightarrow> js_get arr mi' \<le> js_get arr k)"
  using assms
proof (induction n j arr mi ss rule: selection_inner.induct)
  case (1 n j arr mi ss)
  note len = "1.prems"(2) and df = "1.prems"(3) and i0 = "1.prems"(4) and im = "1.prems"(5)
    and mj = "1.prems"(6) and jn = "1.prems"(7) and mn = "1.prems"(8)
  show ?case
  proof (cases "j < n")
    case False
    then have "mi' = mi" "j = n" using "1.prems"(1) jn by (simp_all add: selection_inner.simps)
    then show ?thesis using im mj mn by auto
  next
    case True
    have rj: "0 \<le> j" "j < int (length arr)" "0 \<le> mi" "mi < int (length arr)"
      using True i0 im mj len by auto
    show ?thesis
    proof (cases "js_lt (js_get arr j) (js_get arr mi)")
      case lt: True
      have l: "js_get arr j < js_get arr mi"
        using lt not_js_lt_le[OF df rj] by simp
      have mn2: "\<forall>k. i \<le> k \<and> k < j + 1 \<longrightarrow> js_get arr j \<le> js_get arr k"
      proof (intro allI impI)
        fix k assume a: "i \<le> k \<and> k < j + 1"
        show "js_get arr j \<le> js_get arr k"
        proof (cases "k = j")
          case True
          then show ?thesis by simp
        next
          case False
          then have "js_get arr mi \<le> js_get arr k" using mn a by simp
          then show ?thesis using l by simp
        qed
      qed
      have e: "selection_inner n (j + 1) arr j
              (ss @ [createStep COMPARE [mi, j] arr False,
                     createStep SELECT [j] arr False]) = (mi', ss')"
        using "1.prems"(1) True lt by (simp add: selection_inner.simps[of n j])
      from "1.IH"(1)[OF True lt e len df i0 _ _ _ mn2] True im mj
      show ?thesis by simp
    next
      case nlt: False
      have l: "js_get arr mi \<le> js_get arr j"
        using nlt not_js_lt_le[OF df rj] by simp
      have mn2: "\<forall>k. i \<le> k \<and> k < j + 1 \<longrightarrow> js_get arr mi \<le> js_get arr k"
      proof (intro allI impI)
        fix k assume a: "i \<le> k \<and> k < j + 1"
        show "js_get arr mi \<le> js_get arr k"
        proof (cases "k = j")
          case True
          then show ?thesis using l by simp
        next
          case False
          then show ?thesis using mn a by simp
        qed
      qed
      have e: "selection_inner n (j + 1) arr mi
              (ss @ [createStep COMPARE [mi, j] arr False]) = (mi', ss')"
        using "1.prems"(1) True nlt by (simp add: selection_inner.simps[of n j])
      from "1.IH"(2)[OF True nlt e len df i0 im _ _ mn2] True mj
      show ?thesis by simp
    qed
  qed
qed

lemma selection_outer_all:
  assumes "selection_outer (int n) i arr ss = (arr', ss')"
    and "Inv n a0 ss arr" "None \<notin> set arr" "0 \<le> i" "head_done arr i"
  shows "Inv n a0 ss' arr' \<and> sorted arr'"
  using assms
proof (induction "int n" i arr ss rule: selection_outer.induct)
  case (1 i arr ss)
  note I = "1.prems"(2) and df = "1.prems"(3) and i0 = "1.prems"(4) and hd = "1.prems"(5)
  have len: "int n = int (length arr)" using I by (simp add: Inv_def)
  show ?case
  proof (cases "i < int n - 1")
    case False
    then have "arr' = arr" "ss' = ss" using "1.prems"(1) by (simp_all add: selection_outer.simps)
    then show ?thesis using head_done_sorted[OF hd] False I len by simp
  next
    case True
    let ?s0 = "ss @ [createStep SELECT [i] arr False]"
    obtain mi ss1 where in1: "selection_inner (int n) (i + 1) arr i ?s0 = (mi, ss1)"
      by (cases "selection_inner (int n) (i + 1) arr i ?s0") auto
    have I0: "Inv n a0 ?s0 arr" by (intro Inv_step I) simp
    have I1: "Inv n a0 ss1 arr" using selection_inner_Inv[OF I0 in1] .
    have m: "i \<le> mi \<and> mi < int n \<and> (\<forall>k. i \<le> k \<and> k < int n \<longrightarrow> js_get arr mi \<le> js_get arr k)"
    proof (rule selection_inner_min[OF in1 len df i0])
      show "\<forall>k. i \<le> k \<and> k < i + 1 \<longrightarrow> js_get arr i \<le> js_get arr k"
      proof (intro allI impI)
        fix k assume "i \<le> k \<and> k < i + 1"
        then have "k = i" by linarith
        then show "js_get arr i \<le> js_get arr k" by simp
      qed
    qed (use True in auto)
    show ?thesis
    proof (cases "mi = i")
      case same: True
      let ?s2 = "ss1 @ [createStep SORTED [i] arr False]"
      have e: "selection_outer (int n) (i + 1) arr ?s2 = (arr', ss')"
        using "1.prems"(1) True in1 same by (simp add: selection_outer.simps[of "int n" i])
      have I2: "Inv n a0 ?s2 arr" by (intro Inv_step I1) simp
      have h2: "head_done arr (i + 1)"
        unfolding head_done_def
      proof (intro allI impI)
        fix k l assume a: "0 \<le> k \<and> k < i + 1 \<and> k \<le> l \<and> l < int (length arr)"
        show "js_get arr k \<le> js_get arr l"
        proof (cases "k = i")
          case True
          then show ?thesis using m same a len by simp
        next
          case False
          then show ?thesis using hd a unfolding head_done_def by auto
        qed
      qed
      show ?thesis
        using "1.hyps"(2)[OF True in1[symmetric] _ e I2 df _ h2] same i0 by simp
    next
      case diff: False
      let ?a = "js_swap arr i mi"
      let ?s2 = "ss1 @ [createStep SWAP [i, mi] arr True, createStep SORTED [i] ?a False]"
      have e: "selection_outer (int n) (i + 1) ?a ?s2 = (arr', ss')"
        using "1.prems"(1) True in1 diff by (simp add: selection_outer.simps[of "int n" i])
      have r: "0 \<le> i" "i < int (length arr)" "0 \<le> mi" "mi < int (length arr)"
        using i0 m True len by auto
      have I2: "Inv n a0 ?s2 ?a"
        unfolding append2 using m diff i0 by (intro Inv_step Inv_swap I1) auto
      have d2: "None \<notin> set ?a" using set_js_swap[OF r] df by simp
      have g: "\<And>k. js_get ?a k = (if k = mi then js_get arr i
                 else if k = i then js_get arr mi else js_get arr k)"
        using js_get_js_swap[OF r] by simp
      have l2: "length ?a = length arr" using length_js_swap[OF r] .
      have h2: "head_done ?a (i + 1)"
        unfolding head_done_def
      proof (intro allI impI)
        fix k l assume a: "0 \<le> k \<and> k < i + 1 \<and> k \<le> l \<and> l < int (length ?a)"
        show "js_get ?a k \<le> js_get ?a l"
        proof (cases "k = i")
          case True
          then show ?thesis using m a len l2 r by (auto simp: g)
        next
          case False
          then have k: "k < i" using a by simp
          then have "js_get arr k \<le> js_get arr l" "js_get arr k \<le> js_get arr i"
            "js_get arr k \<le> js_get arr mi"
            using hd a l2 m r unfolding head_done_def by auto
          then show ?thesis using k m by (auto simp: g)
        qed
      qed
      show ?thesis
        using "1.hyps"(1)[OF True in1[symmetric] _ e I2 d2 _ h2] diff i0 by simp
    qed
  qed
qed

lemma SelectionSort_sorts: "sorts_by_swaps (SelectionSort_generateSteps xs) xs"
proof -
  obtain arr1 ss where o: "selection_outer (int (length xs)) 0 (map Some xs) [] = (arr1, ss)"
    by (cases "selection_outer (int (length xs)) 0 (map Some xs) []") auto
  have "Inv (length xs) (map Some xs) ss arr1 \<and> sorted arr1"
    using selection_outer_all[OF o _ _ _ head_done_start] Inv_nil[of "map Some xs"] by auto
  moreover have "SelectionSort_generateSteps xs
                   = ss @ [createStep SORTED [int (length xs) - 1] arr1 False]"
    using o by (simp add: SelectionSort_generateSteps_def)
  ultimately show ?thesis unfolding sorts_by_swaps_def
    using Inv_step[of "length xs" "map Some xs" ss arr1 SORTED] by auto
qed

subsection \<open>Insertion sort\<close>

lemma prefix_sorted_sorted: "prefix_sorted a m \<Longrightarrow> int (length a) \<le> m \<Longrightarrow> sorted a"
  by (rule sorted_js_getI) (auto simp: prefix_sorted_def)

lemma prefix_sorted_one: "prefix_sorted a 1"
  unfolding prefix_sorted_def
proof (intro allI impI)
  fix k l :: int assume "0 \<le> k \<and> k \<le> l \<and> l < 1"
  then have "k = l" by linarith
  then show "js_get a k \<le> js_get a l" by simp
qed

lemma insertion_while_all:
  assumes "insertion_while key j arr ss = (j', arr', ss')"
    and "Inv n a0 ss arr" "None \<notin> set arr" "- 1 \<le> j" "j < i" "i < int n"
    and "hole_inv arr i j key"
  shows "Inv n a0 ss' arr' \<and> None \<notin> set arr' \<and> prefix_sorted arr' (i + 1)
       \<and> - 1 \<le> j' \<and> j' \<le> j \<and> js_get arr' (j' + 1) = key"
  using assms
proof (induction key j arr ss rule: insertion_while.induct)
  case (1 key j arr ss)
  note I = "1.prems"(2) and df = "1.prems"(3) and j0 = "1.prems"(4) and ji = "1.prems"(5)
    and il = "1.prems"(6) and h = "1.prems"(7)
  have len: "length arr = n" using I by (simp add: Inv_def)
  have hk: "js_get arr (j + 1) = key"
    and hs: "\<And>k l. 0 \<le> k \<Longrightarrow> k \<le> l \<Longrightarrow> l \<le> i \<Longrightarrow> k \<noteq> j + 1 \<Longrightarrow> l \<noteq> j + 1
               \<Longrightarrow> js_get arr k \<le> js_get arr l"
    and hg: "\<And>k. j + 1 < k \<Longrightarrow> k \<le> i \<Longrightarrow> key < js_get arr k"
    using h unfolding hole_inv_def by auto
  have kd: "key \<noteq> None"
    using js_get_defined[OF df, of "j + 1"] hk j0 ji il len by auto
  show ?case
  proof (cases "j \<ge> 0 \<and> js_gt (js_get arr j) key")
    case False
    then have r: "j' = j" "arr' = arr" "ss' = ss"
      using "1.prems"(1) by (auto simp: insertion_while.simps[of key j] split: if_splits)
    have le: "0 \<le> j \<Longrightarrow> js_get arr j \<le> key"
    proof -
      assume a: "0 \<le> j"
      then have "js_get arr j \<noteq> None" using js_get_defined[OF df, of j] ji il len by auto
      then show ?thesis using False a kd by (simp add: js_gt_iff)
    qed
    have "prefix_sorted arr (i + 1)"
      unfolding prefix_sorted_def
    proof (intro allI impI)
      fix k l assume a: "0 \<le> k \<and> k \<le> l \<and> l < i + 1"
      show "js_get arr k \<le> js_get arr l"
      proof (cases "k = j + 1")
        case kh: True
        show ?thesis
        proof (cases "l = j + 1")
          case True
          then show ?thesis using kh by simp
        next
          case False
          then have "key < js_get arr l" using hg[of l] a kh by simp
          then show ?thesis using kh hk by simp
        qed
      next
        case kn: False
        show ?thesis
        proof (cases "l = j + 1")
          case True
          then have kj: "k \<le> j" "0 \<le> j" using a kn by auto
          then have "js_get arr k \<le> js_get arr j" using hs[of k j] a ji by simp
          also have "\<dots> \<le> key" using le kj by simp
          finally show ?thesis using True hk by simp
        next
          case False
          then show ?thesis using hs[of k l] a kn by simp
        qed
      qed
    qed
    then show ?thesis using r I df j0 hk by simp
  next
    case True
    then have jp: "0 \<le> j" and gt: "js_gt (js_get arr j) key" by auto
    have rj: "0 \<le> j" "j < int (length arr)" "0 \<le> j + 1" "j + 1 < int (length arr)"
      using jp ji il len by auto
    have lt: "key < js_get arr j"
      using gt kd js_get_defined[OF df rj(1,2)] by (auto simp: js_gt_iff)
    let ?a = "js_swap arr j (j + 1)"
    have sh: "js_set (js_set arr (j + 1) (js_get arr j)) j key = ?a"
      using js_shift_is_swap[OF rj(1) rj(4) hk] .
    have e: "insertion_while key (j - 1) ?a
               (ss @ [createStep COMPARE [j, j + 1] arr False,
                      createStep SWAP [j, j + 1] arr True]) = (j', arr', ss')"
      using "1.prems"(1) True sh by (simp add: insertion_while.simps[of key j])
    have I2: "Inv n a0 (ss @ [createStep COMPARE [j, j + 1] arr False,
                      createStep SWAP [j, j + 1] arr True]) ?a"
      unfolding append2 using rj len by (intro Inv_swap Inv_step I) auto
    have d2: "None \<notin> set ?a" using set_js_swap[OF rj] df by simp
    have g: "\<And>k. js_get ?a k = (if k = j + 1 then js_get arr j
               else if k = j then js_get arr (j + 1) else js_get arr k)"
      using js_get_js_swap[OF rj] by simp
    have h2: "hole_inv ?a i (j - 1) key"
      unfolding hole_inv_def
    proof (intro conjI allI impI)
      show "js_get ?a (j - 1 + 1) = key" using hk by (simp add: g)
    next
      fix k l
      assume a: "0 \<le> k \<and> k \<le> l \<and> l \<le> i \<and> k \<noteq> j - 1 + 1 \<and> l \<noteq> j - 1 + 1"
      show "js_get ?a k \<le> js_get ?a l"
      proof (cases "k = j + 1")
        case kh: True
        show ?thesis
        proof (cases "l = j + 1")
          case True
          then show ?thesis using kh by simp
        next
          case False
          then show ?thesis using hs[of j l] a kh jp by (simp add: g)
        qed
      next
        case kn: False
        show ?thesis
        proof (cases "l = j + 1")
          case True
          then show ?thesis using hs[of k j] a kn ji by (simp add: g)
        next
          case False
          then show ?thesis using hs[of k l] a kn by (simp add: g)
        qed
      qed
    next
      fix k assume a: "j - 1 + 1 < k \<and> k \<le> i"
      show "key < js_get ?a k"
      proof (cases "k = j + 1")
        case True
        then show ?thesis using lt by (simp add: g)
      next
        case False
        then show ?thesis using hg[of k] a by (simp add: g)
      qed
    qed
    from "1.IH"[OF True, unfolded sh, OF e I2 d2 _ _ il h2] jp ji
    show ?thesis by simp
  qed
qed

lemma insertion_outer_all:
  assumes "insertion_outer (int n) i arr ss = (arr', ss')"
    and "Inv n a0 ss arr" "None \<notin> set arr" "1 \<le> i" "prefix_sorted arr i"
  shows "Inv n a0 ss' arr' \<and> sorted arr'"
  using assms
proof (induction "int n" i arr ss rule: insertion_outer.induct)
  case (1 i arr ss)
  note I = "1.prems"(2) and df = "1.prems"(3) and i1 = "1.prems"(4) and ps = "1.prems"(5)
  have len: "length arr = n" using I by (simp add: Inv_def)
  show ?case
  proof (cases "i < int n")
    case False
    then have "arr' = arr" "ss' = ss" using "1.prems"(1) by (simp_all add: insertion_outer.simps)
    then show ?thesis using prefix_sorted_sorted[OF ps] False I len by simp
  next
    case True
    let ?s0 = "ss @ [createStep SELECT [i] arr False]"
    obtain j arr1 ss1 where w: "insertion_while (js_get arr i) (i - 1) arr ?s0 = (j, arr1, ss1)"
      by (cases "insertion_while (js_get arr i) (i - 1) arr ?s0") auto
    have I0: "Inv n a0 ?s0 arr" by (intro Inv_step I) simp
    have h0: "hole_inv arr i (i - 1) (js_get arr i)"
      unfolding hole_inv_def using ps unfolding prefix_sorted_def by auto
    have r: "Inv n a0 ss1 arr1 \<and> None \<notin> set arr1 \<and> prefix_sorted arr1 (i + 1)
       \<and> - 1 \<le> j \<and> j \<le> i - 1 \<and> js_get arr1 (j + 1) = js_get arr i"
      using insertion_while_all[OF w I0 df _ _ True h0] i1 by simp
    let ?s2 = "(if j = i - 1 then ss1 @ [createStep COMPARE [j, i] arr1 False] else ss1)
                @ [createStep INSERT [j + 1] arr1 False]"
    have I2: "Inv n a0 ?s2 arr1"
    proof (cases "j = i - 1")
      case True
      have "Inv n a0 ((ss1 @ [createStep COMPARE [j, i] arr1 False])
                        @ [createStep INSERT [j + 1] arr1 False]) arr1"
        using r by (intro Inv_step) auto
      then show ?thesis using True by simp
    next
      case False
      have "Inv n a0 (ss1 @ [createStep INSERT [j + 1] arr1 False]) arr1"
        using r by (intro Inv_step) auto
      then show ?thesis using False by simp
    qed
    have e: "insertion_outer (int n) (i + 1) arr1 ?s2 = (arr', ss')"
      using "1.prems"(1) True w by (simp add: insertion_outer.simps[of "int n" i])
    show ?thesis
      using "1.hyps"[OF True w[symmetric] refl e I2] r i1 by simp
  qed
qed

lemma InsertionSort_sorts: "sorts_by_swaps (InsertionSort_generateSteps xs) xs"
proof -
  let ?a = "map Some xs" and ?n = "length xs"
  let ?s0 = "[createStep SORTED [0] ?a False]"
  obtain arr1 ss where o: "insertion_outer (int ?n) 1 ?a ?s0 = (arr1, ss)"
    by (cases "insertion_outer (int ?n) 1 ?a ?s0") auto
  have I0: "Inv ?n ?a ?s0 ?a"
    using Inv_step[OF Inv_nil[of ?a], of SORTED "[0]"] by simp
  have r: "Inv ?n ?a ss arr1 \<and> sorted arr1"
    using insertion_outer_all[OF o I0 _ _ prefix_sorted_one] by auto
  have g: "InsertionSort_generateSteps xs = mark_all_sorted (int ?n) 0 arr1 ss"
    using o by (simp add: InsertionSort_generateSteps_def)
  have I: "Inv ?n ?a (mark_all_sorted (int ?n) 0 arr1 ss) arr1"
    using mark_all_sorted_Inv r by simp
  have "ends_sorted (mark_all_sorted (int ?n) 0 arr1 ss)"
  proof (cases "?n = 0")
    case True
    then have "ss = ?s0" using o by (simp add: insertion_outer.simps)
    then show ?thesis using True
      by (simp add: mark_all_sorted_none ends_sorted_def createStep_def)
  next
    case False
    then show ?thesis by (intro mark_all_sorted_ends') simp
  qed
  then show ?thesis unfolding sorts_by_swaps_def g using I r by auto
qed

subsection \<open>Ranges of an array\<close>

lemma frame_refl: "frame a a lo hi"
  by (simp add: frame_def)

lemma frame_trans:
  "frame a b lo hi \<Longrightarrow> frame b c lo' hi' \<Longrightarrow> lo \<le> lo' \<Longrightarrow> hi' \<le> hi \<Longrightarrow> frame a c lo hi"
  unfolding frame_def by auto

lemma frame_swap:
  "0 \<le> i \<Longrightarrow> i < int (length a) \<Longrightarrow> 0 \<le> j \<Longrightarrow> j < int (length a) \<Longrightarrow>
     lo \<le> i \<Longrightarrow> i \<le> hi \<Longrightarrow> lo \<le> j \<Longrightarrow> j \<le> hi \<Longrightarrow> frame a (js_swap a i j) lo hi"
  unfolding frame_def by (auto simp: js_get_js_swap)

lemma map_js_get_upto: "map (js_get a) [0..int (length a) - 1] = a"
proof (rule nth_equalityI)
  show "length (map (js_get a) [0..int (length a) - 1]) = length a" by simp
next
  fix i assume "i < length (map (js_get a) [0..int (length a) - 1])"
  then have i: "i < length a" by simp
  then have "[0..int (length a) - 1] ! i = int i" by (simp add: nth_upto)
  then show "map (js_get a) [0..int (length a) - 1] ! i = a ! i"
    using i by (simp add: js_get_def)
qed

lemma upto_three:
  assumes "0 \<le> lo" "lo \<le> hi + 1" "hi < n"
  shows "[0..n - 1] = [0..lo - 1] @ [lo..hi] @ [hi + 1..n - 1]"
proof -
  have a: "[0..n - 1] = [0..lo - 1] @ [lo..n - 1]"
  proof (cases "lo = 0")
    case True
    then show ?thesis by simp
  next
    case False
    then show ?thesis using assms upto_split2[of 0 "lo - 1" "n - 1"] by simp
  qed
  have b: "[lo..n - 1] = [lo..hi] @ [hi + 1..n - 1]"
  proof (cases "lo \<le> hi")
    case True
    then show ?thesis using assms upto_split2[of lo hi "n - 1"] by simp
  next
    case False
    then have "hi + 1 = lo" using assms by simp
    then show ?thesis using False by simp
  qed
  show ?thesis using a b by simp
qed

lemma range_mset:
  assumes "length a = length b" "mset a = mset b" "frame a b lo hi"
    and "0 \<le> lo" "lo \<le> hi + 1" "hi < int (length a)"
  shows "mset (map (js_get b) [lo..hi]) = mset (map (js_get a) [lo..hi])"
proof -
  let ?n = "int (length a)"
  have s: "[0..?n - 1] = [0..lo - 1] @ [lo..hi] @ [hi + 1..?n - 1]"
    using upto_three[OF assms(4,5,6)] .
  have l: "map (js_get b) [0..lo - 1] = map (js_get a) [0..lo - 1]"
    using assms(3) unfolding frame_def by (intro map_cong) auto
  have r: "map (js_get b) [hi + 1..?n - 1] = map (js_get a) [hi + 1..?n - 1]"
    using assms(3) unfolding frame_def by (intro map_cong) auto
  have "mset (map (js_get b) [0..?n - 1]) = mset (map (js_get a) [0..?n - 1])"
    using map_js_get_upto[of a] map_js_get_upto[of b] assms(1,2) by simp
  then show ?thesis unfolding s by (simp add: l r)
qed

lemma range_bound:
  assumes "mset (map (js_get b) [lo..hi]) = mset (map (js_get a) [lo..hi])"
    and "\<And>k. lo \<le> k \<Longrightarrow> k \<le> hi \<Longrightarrow> P (js_get a k)"
    and "lo \<le> k" "k \<le> hi"
  shows "P (js_get b k)"
proof -
  have "set (map (js_get b) [lo..hi]) = set (map (js_get a) [lo..hi])"
    using assms(1) by (rule mset_eq_setD)
  moreover have "js_get b k \<in> set (map (js_get b) [lo..hi])" using assms(3,4) by simp
  ultimately obtain k' where "lo \<le> k'" "k' \<le> hi" "js_get b k = js_get a k'" by auto
  then show ?thesis using assms(2)[of k'] by simp
qed

subsection \<open>Quick sort\<close>

lemma partition_loop_all:
  assumes "partition_loop pv high j i arr ss = (i', arr', ss')"
    and "Inv n a0 ss arr" "None \<notin> set arr" "0 \<le> low" "low - 1 \<le> i" "i < j" "j \<le> high"
    and "high < int n" "low \<le> j" "js_get arr high = pv"
    and "\<forall>k. low \<le> k \<and> k \<le> i \<longrightarrow> js_get arr k < pv"
    and "\<forall>k. i < k \<and> k < j \<longrightarrow> pv \<le> js_get arr k"
  shows "Inv n a0 ss' arr' \<and> None \<notin> set arr' \<and> i \<le> i' \<and> i' < high \<and> js_get arr' high = pv
       \<and> (\<forall>k. low \<le> k \<and> k \<le> i' \<longrightarrow> js_get arr' k < pv)
       \<and> (\<forall>k. i' < k \<and> k < high \<longrightarrow> pv \<le> js_get arr' k)
       \<and> frame arr arr' low high"
  using assms
proof (induction pv high j i arr ss rule: partition_loop.induct)
  case (1 pv high j i arr ss)
  note I = "1.prems"(2) and df = "1.prems"(3) and l0 = "1.prems"(4) and li = "1.prems"(5)
    and ij = "1.prems"(6) and jh = "1.prems"(7) and hn = "1.prems"(8) and lj = "1.prems"(9)
    and hp = "1.prems"(10) and A = "1.prems"(11) and B = "1.prems"(12)
  have len: "length arr = n" using I by (simp add: Inv_def)
  have pd: "pv \<noteq> None"
    using js_get_defined[OF df, of high] hp l0 lj jh hn len by auto
  show ?case
  proof (cases "j < high")
    case False
    then have "i' = i" "arr' = arr" "ss' = ss" "j = high"
      using "1.prems"(1) jh by (simp_all add: partition_loop.simps)
    then show ?thesis using I df ij A B hp frame_refl by auto
  next
    case True
    have rj: "0 \<le> j" "j < int (length arr)" using True l0 lj hn len by auto
    have jd: "js_get arr j \<noteq> None" using js_get_defined[OF df rj] by auto
    note c = Inv_step[OF I, of COMPARE "[j, high]"]
    show ?thesis
    proof (cases "js_lt (js_get arr j) pv")
      case lt: True
      then have ltv: "js_get arr j < pv" using jd pd by (simp add: js_lt_iff)
      show ?thesis
      proof (cases "i + 1 \<noteq> j")
        case ne: True
        let ?a = "js_swap arr (i + 1) j"
        let ?s = "ss @ [createStep COMPARE [j, high] arr False,
                        createStep SWAP [i + 1, j] arr True]"
        have ri: "0 \<le> i + 1" "i + 1 < int (length arr)" using li l0 ij rj by auto
        have e: "partition_loop pv high (j + 1) (i + 1) ?a ?s = (i', arr', ss')"
          using "1.prems"(1) True lt ne by (simp add: partition_loop.simps[of pv high j])
        have I2: "Inv n a0 ?s ?a"
          unfolding append2 using ri rj ne ij len by (intro Inv_swap c) auto
        have d2: "None \<notin> set ?a" using set_js_swap[OF ri rj] df by simp
        have g: "\<And>k. js_get ?a k = (if k = j then js_get arr (i + 1)
               else if k = i + 1 then js_get arr j else js_get arr k)"
          using js_get_js_swap[OF ri rj] by simp
        have ge: "pv \<le> js_get arr (i + 1)" using B ne ij by simp
        have A2: "\<forall>k. low \<le> k \<and> k \<le> i + 1 \<longrightarrow> js_get ?a k < pv"
          using A ltv ij ne by (auto simp: g)
        have B2: "\<forall>k. i + 1 < k \<and> k < j + 1 \<longrightarrow> pv \<le> js_get ?a k"
          using B ge by (auto simp: g)
        have h2: "js_get ?a high = pv" using hp True ij by (simp add: g)
        have f: "frame arr ?a low high"
          using frame_swap[OF ri rj] li lj True ij by simp
        from "1.IH"(1)[OF True lt ne e I2 d2 l0 _ _ _ hn _ h2 A2 B2] li ij True lj
        have r: "Inv n a0 ss' arr' \<and> None \<notin> set arr' \<and> i + 1 \<le> i' \<and> i' < high
          \<and> js_get arr' high = pv
          \<and> (\<forall>k. low \<le> k \<and> k \<le> i' \<longrightarrow> js_get arr' k < pv)
          \<and> (\<forall>k. i' < k \<and> k < high \<longrightarrow> pv \<le> js_get arr' k)
          \<and> frame ?a arr' low high" by simp
        have "frame ?a arr' low high" using r by simp
        then have "frame arr arr' low high" using frame_trans[OF f] by simp
        then show ?thesis using r by simp
      next
        case eq: False
        let ?s = "ss @ [createStep COMPARE [j, high] arr False,
                        createStep SELECT [i + 1] arr False]"
        have e: "partition_loop pv high (j + 1) (i + 1) arr ?s = (i', arr', ss')"
          using "1.prems"(1) True lt eq by (simp add: partition_loop.simps[of pv high j])
        have I2: "Inv n a0 ?s arr"
          unfolding append2 by (intro Inv_step c) auto
        have A2: "\<forall>k. low \<le> k \<and> k \<le> i + 1 \<longrightarrow> js_get arr k < pv"
        proof (intro allI impI)
          fix k assume a: "low \<le> k \<and> k \<le> i + 1"
          show "js_get arr k < pv"
          proof (cases "k = j")
            case True
            then show ?thesis using ltv by simp
          next
            case False
            then show ?thesis using A a eq by simp
          qed
        qed
        have B2: "\<forall>k. i + 1 < k \<and> k < j + 1 \<longrightarrow> pv \<le> js_get arr k"
          using eq by auto
        from "1.IH"(2)[OF True lt eq e I2 df l0 _ _ _ hn _ hp A2 B2] li ij True lj
        show ?thesis by simp
      qed
    next
      case nlt: False
      then have gev: "pv \<le> js_get arr j" using jd pd by (simp add: js_lt_iff)
      let ?s = "ss @ [createStep COMPARE [j, high] arr False]"
      have e: "partition_loop pv high (j + 1) i arr ?s = (i', arr', ss')"
        using "1.prems"(1) True nlt by (simp add: partition_loop.simps[of pv high j])
      have B2: "\<forall>k. i < k \<and> k < j + 1 \<longrightarrow> pv \<le> js_get arr k"
      proof (intro allI impI)
        fix k assume a: "i < k \<and> k < j + 1"
        show "pv \<le> js_get arr k"
        proof (cases "k = j")
          case True
          then show ?thesis using gev by simp
        next
          case False
          then show ?thesis using B a by simp
        qed
      qed
      from "1.IH"(3)[OF True nlt e c df l0 li _ _ hn _ hp A B2] ij True lj
      show ?thesis by simp
    qed
  qed
qed

lemma partition_all:
  assumes "partition low high arr ss = (p, arr', ss')"
    and "Inv n a0 ss arr" "None \<notin> set arr" "0 \<le> low" "low \<le> high" "high < int n"
  shows "Inv n a0 ss' arr' \<and> None \<notin> set arr' \<and> low \<le> p \<and> p \<le> high
       \<and> (\<forall>k. low \<le> k \<and> k < p \<longrightarrow> js_get arr' k < js_get arr' p)
       \<and> (\<forall>k. p < k \<and> k \<le> high \<longrightarrow> js_get arr' p \<le> js_get arr' k)
       \<and> frame arr arr' low high"
proof -
  let ?pv = "js_get arr high"
  let ?s0 = "ss @ [createStep PIVOT [high] arr False]"
  obtain i arr1 ss1 where l: "partition_loop ?pv high low (low - 1) arr ?s0 = (i, arr1, ss1)"
    by (cases "partition_loop ?pv high low (low - 1) arr ?s0") auto
  have I0: "Inv n a0 ?s0 arr" by (intro Inv_step assms(2)) simp
  have r: "Inv n a0 ss1 arr1 \<and> None \<notin> set arr1 \<and> low - 1 \<le> i \<and> i < high
       \<and> js_get arr1 high = ?pv
       \<and> (\<forall>k. low \<le> k \<and> k \<le> i \<longrightarrow> js_get arr1 k < ?pv)
       \<and> (\<forall>k. i < k \<and> k < high \<longrightarrow> ?pv \<le> js_get arr1 k)
       \<and> frame arr arr1 low high"
  proof -
    have A: "\<forall>k. low \<le> k \<and> k \<le> low - 1 \<longrightarrow> js_get arr k < ?pv"
      by (intro allI impI) linarith
    have B: "\<forall>k. low - 1 < k \<and> k < low \<longrightarrow> ?pv \<le> js_get arr k"
      by (intro allI impI) linarith
    show ?thesis
      using partition_loop_all[OF l I0 assms(3,4) _ _ assms(5,6) _ refl A B] by simp
  qed
  have len: "length arr1 = n" using r by (simp add: Inv_def)
  show ?thesis
  proof (cases "i + 1 \<noteq> high")
    case True
    let ?a = "js_swap arr1 (i + 1) high"
    have e: "p = i + 1" "arr' = ?a"
      "ss' = ss1 @ [createStep SWAP [i + 1, high] arr1 True]"
      using assms(1) l True by (auto simp: partition_def Let_def)
    have ri: "0 \<le> i + 1" "i + 1 < int (length arr1)" "0 \<le> high" "high < int (length arr1)"
      using r assms(4,5,6) len by auto
    have g: "\<And>k. js_get ?a k = (if k = high then js_get arr1 (i + 1)
               else if k = i + 1 then js_get arr1 high else js_get arr1 k)"
      using js_get_js_swap[OF ri] by simp
    have I2: "Inv n a0 ss' ?a"
      unfolding e using r True ri len by (intro Inv_swap) auto
    have d2: "None \<notin> set ?a" using set_js_swap[OF ri] r by simp
    have f: "frame arr ?a low high"
      using frame_trans[of arr arr1 low high ?a low high] frame_swap[OF ri, of low high] r
        assms(5) by simp
    have A: "\<forall>k. low \<le> k \<and> k < i + 1 \<longrightarrow> js_get ?a k < js_get ?a (i + 1)"
      using r True by (auto simp: g)
    have B: "\<forall>k. i + 1 < k \<and> k \<le> high \<longrightarrow> js_get ?a (i + 1) \<le> js_get ?a k"
      using r True by (auto simp: g)
    show ?thesis using e I2 d2 f A B r True by simp
  next
    case False
    then have e: "p = high" "arr' = arr1" "ss' = ss1" "i + 1 = high"
      using assms(1) l by (auto simp: partition_def Let_def)
    have A: "\<forall>k. low \<le> k \<and> k < high \<longrightarrow> js_get arr1 k < js_get arr1 high"
      using r e by auto
    show ?thesis unfolding e(1,2,3) using r A assms(5) by auto
  qed
qed

lemma range_sorted_empty: "hi \<le> lo \<Longrightarrow> range_sorted a lo hi"
  unfolding range_sorted_def
proof (intro allI impI)
  fix k l :: int assume "hi \<le> lo" "lo \<le> k \<and> k \<le> l \<and> l \<le> hi"
  then have "k = l" by linarith
  then show "js_get a k \<le> js_get a l" by simp
qed

lemma quickSortRecursive_all:
  assumes "quickSortRecursive low high arr ss = (arr', ss')"
    and "Inv n a0 ss arr" "None \<notin> set arr" "0 \<le> low" "high < int n"
  shows "Inv n a0 ss' arr' \<and> None \<notin> set arr' \<and> frame arr arr' low high
       \<and> range_sorted arr' low high"
  using assms
proof (induction low high arr ss arbitrary: arr' ss' rule: quickSortRecursive.induct)
  case (1 low high arr ss)
  note I = "1.prems"(2) and df = "1.prems"(3) and l0 = "1.prems"(4) and hn = "1.prems"(5)
  show ?case
  proof (cases "low \<ge> high")
    case True
    have u: "(if low = high then (arr, ss @ [createStep SORTED [low] arr False])
              else (arr, ss)) = (arr', ss')"
      using "1.prems"(1) True by (simp add: quickSortRecursive.simps[of low high arr ss])
    show ?thesis
    proof (cases "low = high")
      case eq: True
      then have "arr' = arr" "ss' = ss @ [createStep SORTED [low] arr False]"
        using u by auto
      then show ?thesis
        using df True frame_refl range_sorted_empty Inv_step[OF I, of SORTED "[low]"] by simp
    next
      case False
      then have "arr' = arr" "ss' = ss" using u by auto
      then show ?thesis using I df True frame_refl range_sorted_empty by simp
    qed
  next
    case False
    let ?s0 = "ss @ [createStep DIVIDE [low, high] arr False]"
    obtain p arr1 ss1 where pt: "partition low high arr ?s0 = (p, arr1, ss1)"
      by (cases "partition low high arr ?s0") auto
    let ?s1 = "ss1 @ [createStep SORTED [p] arr1 False]"
    obtain arr2 ss2 where q1: "quickSortRecursive low (p - 1) arr1 ?s1 = (arr2, ss2)"
      by (cases "quickSortRecursive low (p - 1) arr1 ?s1") auto
    have q2: "quickSortRecursive (p + 1) high arr2 ss2 = (arr', ss')"
      using "1.prems"(1) False pt q1 by (simp add: quickSortRecursive.simps[of low high])
    have I0: "Inv n a0 ?s0 arr" by (intro Inv_step I) simp
    have P: "Inv n a0 ss1 arr1 \<and> None \<notin> set arr1 \<and> low \<le> p \<and> p \<le> high
       \<and> (\<forall>k. low \<le> k \<and> k < p \<longrightarrow> js_get arr1 k < js_get arr1 p)
       \<and> (\<forall>k. p < k \<and> k \<le> high \<longrightarrow> js_get arr1 p \<le> js_get arr1 k)
       \<and> frame arr arr1 low high"
      using partition_all[OF pt I0 df l0 _ hn] False by simp
    have I1: "Inv n a0 ?s1 arr1" using P by (intro Inv_step) auto
    have R1: "Inv n a0 ss2 arr2 \<and> None \<notin> set arr2 \<and> frame arr1 arr2 low (p - 1)
       \<and> range_sorted arr2 low (p - 1)"
      using "1.IH"(1)[OF False pt[symmetric] refl q1 I1 _ l0] P hn by simp
    have R2: "Inv n a0 ss' arr' \<and> None \<notin> set arr' \<and> frame arr2 arr' (p + 1) high
       \<and> range_sorted arr' (p + 1) high"
      using "1.IH"(2)[OF False pt[symmetric] refl q1[symmetric] q2] R1 P l0 hn by simp
    have len: "length arr1 = n" "length arr2 = n" "length arr' = n"
      using P R1 R2 by (simp_all add: Inv_def)
    have ms: "mset arr2 = mset arr1" "mset arr' = mset arr2"
      using P R1 R2 by (simp_all add: Inv_def)
    have m1: "mset (map (js_get arr2) [low..p - 1]) = mset (map (js_get arr1) [low..p - 1])"
      using range_mset[of arr1 arr2 low "p - 1"] len ms R1 l0 P hn by simp
    have m2: "mset (map (js_get arr') [p + 1..high]) = mset (map (js_get arr2) [p + 1..high])"
      using range_mset[of arr2 arr' "p + 1" high] len ms R2 l0 P hn by simp
    have f12: "\<And>k. k < low \<or> p - 1 < k \<Longrightarrow> js_get arr2 k = js_get arr1 k"
      using R1 unfolding frame_def by blast
    have f23: "\<And>k. k < p + 1 \<or> high < k \<Longrightarrow> js_get arr' k = js_get arr2 k"
      using R2 unfolding frame_def by blast
    have pv: "js_get arr' p = js_get arr1 p" using f12[of p] f23[of p] by simp
    have left2: "\<And>k. low \<le> k \<Longrightarrow> k \<le> p - 1 \<Longrightarrow> js_get arr2 k < js_get arr1 p"
      using range_bound[OF m1, where P = "\<lambda>v. v < js_get arr1 p"] P by simp
    have left: "\<And>k. low \<le> k \<Longrightarrow> k < p \<Longrightarrow> js_get arr' k < js_get arr' p"
      using left2 f23 pv by simp
    have right2: "\<And>k. p < k \<Longrightarrow> k \<le> high \<Longrightarrow> js_get arr1 p \<le> js_get arr2 k"
      using f12 P by simp
    have right: "\<And>k. p + 1 \<le> k \<Longrightarrow> k \<le> high \<Longrightarrow> js_get arr' p \<le> js_get arr' k"
      using range_bound[OF m2, where P = "\<lambda>v. js_get arr1 p \<le> v"] right2 pv by simp
    have sl: "\<And>k l. low \<le> k \<Longrightarrow> k \<le> l \<Longrightarrow> l < p \<Longrightarrow> js_get arr' k \<le> js_get arr' l"
      using R1 f23 unfolding range_sorted_def by simp
    have sr: "\<And>k l. p < k \<Longrightarrow> k \<le> l \<Longrightarrow> l \<le> high \<Longrightarrow> js_get arr' k \<le> js_get arr' l"
      using R2 unfolding range_sorted_def by simp
    have rs: "range_sorted arr' low high"
      unfolding range_sorted_def
    proof (intro allI impI)
      fix k l assume a: "low \<le> k \<and> k \<le> l \<and> l \<le> high"
      consider "l < p" | "k < p" "l = p" | "k < p" "p < l" | "k = p" "l = p"
        | "k = p" "p < l" | "p < k"
        using a by linarith
      then show "js_get arr' k \<le> js_get arr' l"
      proof cases
        case 1
        then show ?thesis using sl[of k l] a by simp
      next
        case 2
        then show ?thesis using left[of k] a by simp
      next
        case 3
        have "js_get arr' k < js_get arr' p" using left[of k] a 3 by simp
        moreover have "js_get arr' p \<le> js_get arr' l" using right[of l] a 3 by simp
        ultimately show ?thesis by simp
      next
        case 4
        then show ?thesis by simp
      next
        case 5
        then show ?thesis using right[of l] a by simp
      next
        case 6
        then show ?thesis using sr[of k l] a by simp
      qed
    qed
    have fr: "frame arr arr' low high"
      using frame_trans[of arr arr1 low high arr2 low "p - 1"]
        frame_trans[of arr arr2 low high arr' "p + 1" high] P R1 R2 by simp
    show ?thesis using R2 rs fr by simp
  qed
qed

lemma range_sorted_all: "range_sorted a 0 (int (length a) - 1) \<Longrightarrow> sorted a"
  by (rule sorted_js_getI) (auto simp: range_sorted_def)

lemma QuickSort_sorts: "sorts_by_swaps (QuickSort_generateSteps xs) xs"
proof -
  let ?a = "map Some xs" and ?n = "length xs"
  obtain arr1 ss where o: "quickSortRecursive 0 (int ?n - 1) ?a [] = (arr1, ss)"
    by (cases "quickSortRecursive 0 (int ?n - 1) ?a []") auto
  have r: "Inv ?n ?a ss arr1 \<and> None \<notin> set arr1 \<and> frame ?a arr1 0 (int ?n - 1)
       \<and> range_sorted arr1 0 (int ?n - 1)"
    using quickSortRecursive_all[OF o Inv_nil[of ?a, simplified]] by simp
  have len: "length arr1 = ?n" using r by (simp add: Inv_def)
  have s: "sorted arr1" using range_sorted_all[of arr1] r len by simp
  have g: "QuickSort_generateSteps xs = mark_all_sorted (int ?n) 0 arr1 ss"
    using o len by (simp add: QuickSort_generateSteps_def)
  have I: "Inv ?n ?a (mark_all_sorted (int ?n) 0 arr1 ss) arr1"
    using mark_all_sorted_Inv r by simp
  have "mark_all_sorted (int ?n) 0 arr1 ss = [] \<or> ends_sorted (mark_all_sorted (int ?n) 0 arr1 ss)"
  proof (cases "?n = 0")
    case True
    then have "ss = []" using o by (simp add: quickSortRecursive.simps)
    then show ?thesis using True by (simp add: mark_all_sorted_none)
  next
    case False
    then show ?thesis by (intro disjI2 mark_all_sorted_ends') simp
  qed
  then show ?thesis unfolding sorts_by_swaps_def g using I s by auto
qed

subsection \<open>Heap sort\<close>

lemma heapify_compares_Inv:
  "Inv N a0 ss arr \<Longrightarrow> Inv N a0 (ss @ heapify_compares n i arr) arr"
  unfolding heapify_compares_def
  using Inv_step[of N a0 ss arr COMPARE "[i, 2 * i + 1]"]
    Inv_step[of N a0 ss arr COMPARE "[heapify_largest1 n i arr, 2 * i + 2]"]
    Inv_step[of N a0 "ss @ [createStep COMPARE [i, 2 * i + 1] arr False]" arr COMPARE
      "[heapify_largest1 n i arr, 2 * i + 2]"]
  by auto

lemma heapify_largest_max:
  assumes "None \<notin> set arr" "0 \<le> i" "i < n" "n \<le> int (length arr)"
  shows "js_get arr i \<le> js_get arr (heapify_largest n i arr)
       \<and> (2 * i + 1 < n \<longrightarrow> js_get arr (2 * i + 1) \<le> js_get arr (heapify_largest n i arr))
       \<and> (2 * i + 2 < n \<longrightarrow> js_get arr (2 * i + 2) \<le> js_get arr (heapify_largest n i arr))"
proof -
  let ?l1 = "heapify_largest1 n i arr"
  have ri: "0 \<le> i" "i < int (length arr)" using assms by auto
  have a1: "js_get arr i \<le> js_get arr ?l1
        \<and> (2 * i + 1 < n \<longrightarrow> js_get arr (2 * i + 1) \<le> js_get arr ?l1)
        \<and> 0 \<le> ?l1 \<and> ?l1 < n"
  proof (cases "2 * i + 1 < n")
    case True
    then have rl: "0 \<le> 2 * i + 1" "2 * i + 1 < int (length arr)" using assms by auto
    show ?thesis
      using not_js_gt_le[OF assms(1) rl ri] True assms(2,3)
      by (auto simp: heapify_largest1_def)
  next
    case False
    then show ?thesis using assms(2,3) by (simp add: heapify_largest1_def)
  qed
  then have r1: "0 \<le> ?l1" "?l1 < int (length arr)" using assms by auto
  show ?thesis
  proof (cases "2 * i + 2 < n")
    case True
    then have rr: "0 \<le> 2 * i + 2" "2 * i + 2 < int (length arr)" using assms by auto
    show ?thesis
    proof (cases "js_gt (js_get arr (2 * i + 2)) (js_get arr ?l1)")
      case gt: True
      then have "js_get arr ?l1 < js_get arr (2 * i + 2)"
        using not_js_gt_le[OF assms(1) rr r1] by simp
      moreover have "heapify_largest n i arr = 2 * i + 2"
        using gt True by (simp add: heapify_largest_def)
      ultimately show ?thesis using a1 by auto
    next
      case ngt: False
      then have "js_get arr (2 * i + 2) \<le> js_get arr ?l1"
        using not_js_gt_le[OF assms(1) rr r1] by simp
      moreover have "heapify_largest n i arr = ?l1"
        using ngt by (simp add: heapify_largest_def)
      ultimately show ?thesis using a1 by auto
    qed
  next
    case False
    then have "heapify_largest n i arr = ?l1" by (simp add: heapify_largest_def)
    then show ?thesis using a1 False by auto
  qed
qed

lemma heapify_all:
  assumes "heapify n i arr ss = (arr', ss')"
    and "Inv N a0 ss arr" "None \<notin> set arr" "0 \<le> lo" "lo \<le> i" "i < n" "n \<le> int N"
    and "heap_except arr n lo i"
  shows "Inv N a0 ss' arr' \<and> None \<notin> set arr' \<and> heap_from arr' n lo \<and> frame arr arr' i (n - 1)"
  using assms
proof (induction n i arr ss rule: heapify.induct)
  case (1 n i arr ss)
  note I = "1.prems"(2) and df = "1.prems"(3) and l0 = "1.prems"(4) and li = "1.prems"(5)
    and il = "1.prems"(6) and nN = "1.prems"(7) and he = "1.prems"(8)
  have len: "length arr = N" using I by (simp add: Inv_def)
  let ?L = "heapify_largest n i arr"
  have i0: "0 \<le> i" using l0 li by simp
  have mx: "js_get arr i \<le> js_get arr ?L"
    "2 * i + 1 < n \<Longrightarrow> js_get arr (2 * i + 1) \<le> js_get arr ?L"
    "2 * i + 2 < n \<Longrightarrow> js_get arr (2 * i + 2) \<le> js_get arr ?L"
    using heapify_largest_max[OF df i0 il] nN len by auto
  have hx: "\<And>k. lo \<le> k \<Longrightarrow> k < n \<Longrightarrow> k \<noteq> i \<Longrightarrow> heap_at arr n k"
    and gp: "\<And>p c. lo \<le> p \<Longrightarrow> i = 2 * p + 1 \<or> i = 2 * p + 2 \<Longrightarrow> c = 2 * i + 1 \<or> c = 2 * i + 2
               \<Longrightarrow> c < n \<Longrightarrow> js_get arr c \<le> js_get arr p"
    using he unfolding heap_except_def by auto
  note Ic = heapify_compares_Inv[OF I, of n i]
  show ?case
  proof (cases "?L \<noteq> i")
    case False
    then have e: "arr' = arr" "ss' = ss @ heapify_compares n i arr"
      using "1.prems"(1) by (auto simp: heapify.simps[of n i arr ss])
    have "heap_at arr n i" using mx False by (simp add: heap_at_def)
    then have "heap_from arr n lo" using hx unfolding heap_from_def by metis
    then show ?thesis using e Ic df frame_refl by simp
  next
    case True
    then have Lc: "(?L = 2 * i + 1 \<and> 2 * i + 1 < n) \<or> (?L = 2 * i + 2 \<and> 2 * i + 2 < n)"
      using heapify_largest_cases[of n i arr] by auto
    then have Lr: "i < ?L" "?L < n" using i0 by auto
    let ?a = "js_swap arr i ?L"
    let ?s = "ss @ heapify_compares n i arr @ [createStep SWAP [i, ?L] arr True]"
    have e: "heapify n ?L ?a ?s = (arr', ss')"
      using "1.prems"(1) True by (simp add: heapify.simps[of n i arr ss])
    have ri: "0 \<le> i" "i < int (length arr)" "0 \<le> ?L" "?L < int (length arr)"
      using i0 Lr nN len by auto
    have I2: "Inv N a0 ?s ?a"
      using Inv_swap[OF Ic, of i ?L] ri Lr len by simp
    have d2: "None \<notin> set ?a" using set_js_swap[OF ri] df by simp
    have g: "\<And>k. js_get ?a k = (if k = ?L then js_get arr i
               else if k = i then js_get arr ?L else js_get arr k)"
      using js_get_js_swap[OF ri] by simp
    have hL: "heap_at arr n ?L" using hx[of ?L] Lr li True by simp
    have he2: "heap_except ?a n lo ?L"
      unfolding heap_except_def
    proof (intro conjI allI impI)
      fix k assume a: "lo \<le> k \<and> k < n \<and> k \<noteq> ?L"
      show "heap_at ?a n k"
      proof (cases "k = i")
        case ki: True
        show ?thesis unfolding heap_at_def ki
          using mx Lc i0 by (auto simp: g)
      next
        case kn: False
        have hk: "heap_at arr n k" using hx[of k] a kn by simp
        have nL: "2 * k + 1 \<noteq> ?L" "2 * k + 2 \<noteq> ?L" using Lc kn by auto
        have k0: "0 \<le> k" using a l0 by simp
        have c1: "2 * k + 1 < n \<Longrightarrow> js_get ?a (2 * k + 1) \<le> js_get arr k"
        proof (cases "2 * k + 1 = i")
          case True
          then have "js_get arr ?L \<le> js_get arr k"
            using gp[of k ?L] a Lc Lr by auto
          then show ?thesis using True nL by (simp add: g)
        next
          case False
          assume "2 * k + 1 < n"
          then show ?thesis using hk False nL by (simp add: g heap_at_def)
        qed
        have c2: "2 * k + 2 < n \<Longrightarrow> js_get ?a (2 * k + 2) \<le> js_get arr k"
        proof (cases "2 * k + 2 = i")
          case True
          then have "js_get arr ?L \<le> js_get arr k"
            using gp[of k ?L] a Lc Lr by auto
          then show ?thesis using True nL by (simp add: g)
        next
          case False
          assume "2 * k + 2 < n"
          then show ?thesis using hk False nL by (simp add: g heap_at_def)
        qed
        show ?thesis unfolding heap_at_def using c1 c2 a kn by (simp add: g)
      qed
    next
      fix p c
      assume a: "lo \<le> p \<and> (?L = 2 * p + 1 \<or> ?L = 2 * p + 2)
                 \<and> (c = 2 * ?L + 1 \<or> c = 2 * ?L + 2) \<and> c < n"
      then have p: "p = i" using Lc by auto
      have c: "c \<noteq> i" "c \<noteq> ?L" using a Lr i0 by auto
      have "js_get arr c \<le> js_get arr ?L" using hL a unfolding heap_at_def by auto
      then show "js_get ?a c \<le> js_get ?a p" using p c Lr by (simp add: g)
    qed
    from "1.IH"[OF True e I2 d2 l0 _ _ nN he2] Lr li
    have r: "Inv N a0 ss' arr' \<and> None \<notin> set arr' \<and> heap_from arr' n lo
             \<and> frame ?a arr' ?L (n - 1)" by simp
    have "frame arr ?a i (n - 1)" using frame_swap[OF ri, of i "n - 1"] Lr by simp
    then have "frame arr arr' i (n - 1)"
      using frame_trans[of arr ?a i "n - 1" arr' ?L "n - 1"] r Lr by simp
    then show ?thesis using r by simp
  qed
qed

lemma heap_build_all:
  assumes "heap_build n i arr ss = (arr', ss')"
    and "Inv N a0 ss arr" "None \<notin> set arr" "n = int N" "- 1 \<le> i" "i < n \<or> i = - 1"
    and "heap_from arr n (i + 1)"
  shows "Inv N a0 ss' arr' \<and> None \<notin> set arr' \<and> heap_from arr' n 0"
  using assms
proof (induction n i arr ss rule: heap_build.induct)
  case (1 n i arr ss)
  note I = "1.prems"(2) and df = "1.prems"(3) and nN = "1.prems"(4) and i1 = "1.prems"(5)
    and il = "1.prems"(6) and hf = "1.prems"(7)
  show ?case
  proof (cases "i \<ge> 0")
    case False
    then have "arr' = arr" "ss' = ss" "i = - 1"
      using "1.prems"(1) i1 by (auto simp: heap_build.simps[of n i arr ss])
    then show ?thesis using I df hf by simp
  next
    case True
    obtain arr1 ss1 where h: "heapify n i arr ss = (arr1, ss1)"
      by (cases "heapify n i arr ss") auto
    have e: "heap_build n (i - 1) arr1 ss1 = (arr', ss')"
      using "1.prems"(1) True h by (simp add: heap_build.simps[of n i arr ss])
    have he: "heap_except arr n i i"
      unfolding heap_except_def
    proof (intro conjI allI impI)
      fix k assume "i \<le> k \<and> k < n \<and> k \<noteq> i"
      then show "heap_at arr n k" using hf unfolding heap_from_def by simp
    next
      fix p c
      assume "i \<le> p \<and> (i = 2 * p + 1 \<or> i = 2 * p + 2) \<and> (c = 2 * i + 1 \<or> c = 2 * i + 2) \<and> c < n"
      then have False using True by linarith
      then show "js_get arr c \<le> js_get arr p" ..
    qed
    have r: "Inv N a0 ss1 arr1 \<and> None \<notin> set arr1 \<and> heap_from arr1 n i
             \<and> frame arr arr1 i (n - 1)"
      using heapify_all[OF h I df True _ _ _ he] il True nN by simp
    show ?thesis
      using "1.IH"[OF True h[symmetric] e _ _ nN] r il True by simp
  qed
qed

lemma heap_root_max:
  assumes "heap_from a n 0" "0 \<le> k" "k < n"
  shows "js_get a k \<le> js_get a 0"
  using assms(2,3)
proof (induction "nat k" arbitrary: k rule: less_induct)
  case less
  show ?case
  proof (cases "k = 0")
    case True
    then show ?thesis by simp
  next
    case False
    let ?p = "(k - 1) div 2"
    have p: "0 \<le> ?p" "?p < k" "k = 2 * ?p + 1 \<or> k = 2 * ?p + 2"
      using less.prems False by presburger+
    have "heap_at a n ?p" using assms(1) p less.prems unfolding heap_from_def by simp
    then have "js_get a k \<le> js_get a ?p"
      using p(3) less.prems unfolding heap_at_def by metis
    moreover have "js_get a ?p \<le> js_get a 0"
      using less.hyps[of ?p] p less.prems by simp
    ultimately show ?thesis by (rule order_trans)
  qed
qed

lemma heap_extract_all:
  assumes "heap_extract i arr ss = (arr', ss')"
    and "Inv N a0 ss arr" "None \<notin> set arr" "- 1 \<le> i" "i < int N \<or> i = - 1"
    and "heap_from arr (i + 1) 0" "tail_done arr (i + 1)"
  shows "Inv N a0 ss' arr' \<and> sorted arr'"
  using assms
proof (induction i arr ss rule: heap_extract.induct)
  case (1 i arr ss)
  note I = "1.prems"(2) and df = "1.prems"(3) and i1 = "1.prems"(4) and iN = "1.prems"(5)
    and hf = "1.prems"(6) and td = "1.prems"(7)
  have len: "length arr = N" using I by (simp add: Inv_def)
  show ?case
  proof (cases "i > 0")
    case False
    then have "arr' = arr" "ss' = ss"
      using "1.prems"(1) by (auto simp: heap_extract.simps[of i arr ss])
    then show ?thesis using I tail_done_sorted[OF td] False by simp
  next
    case True
    let ?a = "js_swap arr 0 i"
    let ?s = "ss @ [createStep SWAP [0, i] arr True, createStep SORTED [i] ?a False]"
    obtain arr2 ss2 where h: "heapify i 0 ?a ?s = (arr2, ss2)"
      by (cases "heapify i 0 ?a ?s") auto
    have e: "heap_extract (i - 1) arr2 ss2 = (arr', ss')"
      using "1.prems"(1) True h by (simp add: heap_extract.simps[of i arr ss])
    have ri: "(0::int) \<le> 0" "0 < int (length arr)" "0 \<le> i" "i < int (length arr)"
      using True iN len by auto
    have I1: "Inv N a0 ?s ?a"
      unfolding append2 using True iN by (intro Inv_step Inv_swap I) auto
    have d1: "None \<notin> set ?a" using set_js_swap[OF ri] df by simp
    have g: "\<And>k. js_get ?a k = (if k = i then js_get arr 0
               else if k = 0 then js_get arr i else js_get arr k)"
      using js_get_js_swap[OF ri] by simp
    have l1: "length ?a = N" using length_js_swap[OF ri] len by simp
    have he: "heap_except ?a i 0 0"
      unfolding heap_except_def
    proof (intro conjI allI impI)
      fix k assume a: "0 \<le> k \<and> k < i \<and> k \<noteq> 0"
      then have "heap_at arr (i + 1) k" using hf unfolding heap_from_def by simp
      then show "heap_at ?a i k" using a unfolding heap_at_def by (auto simp: g)
    next
      fix p c :: int
      assume "0 \<le> p \<and> (0 = 2 * p + 1 \<or> 0 = 2 * p + 2) \<and> (c = 2 * 0 + 1 \<or> c = 2 * 0 + 2) \<and> c < i"
      then have False by linarith
      then show "js_get ?a c \<le> js_get ?a p" ..
    qed
    have r: "Inv N a0 ss2 arr2 \<and> None \<notin> set arr2 \<and> heap_from arr2 i 0
             \<and> frame ?a arr2 0 (i - 1)"
      using heapify_all[OF h I1 d1 _ _ True _ he] iN True by simp
    have l2: "length arr2 = N" using r by (simp add: Inv_def)
    have ms: "mset arr2 = mset ?a" using r I1 by (simp add: Inv_def)
    have m: "mset (map (js_get arr2) [0..i - 1]) = mset (map (js_get ?a) [0..i - 1])"
      using range_mset[of ?a arr2 0 "i - 1"] l1 l2 ms r True iN by simp
    have f: "\<And>k. i \<le> k \<Longrightarrow> js_get arr2 k = js_get ?a k"
      using r unfolding frame_def by simp
    have M: "\<And>k. 0 \<le> k \<Longrightarrow> k \<le> i \<Longrightarrow> js_get arr k \<le> js_get arr 0"
      using heap_root_max[OF hf] by simp
    have T: "\<And>k l. 0 \<le> k \<Longrightarrow> k \<le> l \<Longrightarrow> i + 1 \<le> l \<Longrightarrow> l < int N
                \<Longrightarrow> js_get arr k \<le> js_get arr l"
      using td len unfolding tail_done_def by simp
    have td2: "tail_done arr2 i"
      unfolding tail_done_def
    proof (intro allI impI)
      fix k l assume a: "0 \<le> k \<and> k \<le> l \<and> i \<le> l \<and> l < int (length arr2)"
      show "js_get arr2 k \<le> js_get arr2 l"
      proof (cases "l = i")
        case li: True
        have ll: "js_get arr2 l = js_get arr 0" using f[of l] li by (simp add: g)
        show ?thesis
        proof (cases "k = i")
          case True
          then show ?thesis using li by simp
        next
          case False
          then have k: "0 \<le> k" "k \<le> i - 1" using a li by auto
          have "js_get arr2 k \<le> js_get arr 0"
          proof (rule range_bound[OF m _ k, where P = "\<lambda>v. v \<le> js_get arr 0"])
            fix k' assume "0 \<le> k'" "k' \<le> i - 1"
            then show "js_get ?a k' \<le> js_get arr 0" using M[of k'] M[of i] by (simp add: g)
          qed
          then show ?thesis using ll by simp
        qed
      next
        case ln: False
        then have lg: "i + 1 \<le> l" "l < int N" using a l2 by auto
        have ll: "js_get arr2 l = js_get arr l" using f[of l] lg True by (simp add: g)
        consider "k < i" | "k = i" | "i < k" by linarith
        then show ?thesis
        proof cases
          case 1
          then have k: "0 \<le> k" "k \<le> i - 1" using a by auto
          have "js_get arr2 k \<le> js_get arr l"
          proof (rule range_bound[OF m _ k, where P = "\<lambda>v. v \<le> js_get arr l"])
            fix k' assume "0 \<le> k'" "k' \<le> i - 1"
            then show "js_get ?a k' \<le> js_get arr l"
              using T[of k' l] T[of i l] lg True by (simp add: g)
          qed
          then show ?thesis using ll by simp
        next
          case 2
          then have "js_get arr2 k = js_get arr 0" using f[of k] by (simp add: g)
          then show ?thesis using ll T[of 0 l] lg True by simp
        next
          case 3
          then have "js_get arr2 k = js_get arr k" using f[of k] True by (simp add: g)
          then show ?thesis using ll T[of k l] lg a 3 True by simp
        qed
      qed
    qed
    show ?thesis
      using "1.IH"[OF True h[symmetric] e] r td2 True iN by simp
  qed
qed

lemma heap_from_leaves: "heap_from a n (n div 2 - 1 + 1)"
  unfolding heap_from_def heap_at_def by (intro allI impI conjI) linarith+

lemma HeapSort_sorts: "sorts_by_swaps (HeapSort_generateSteps xs) xs"
proof -
  let ?a = "map Some xs" and ?n = "length xs"
  let ?s0 = "[createStep DIVIDE [] ?a False]"
  obtain arr1 ss1 where b: "heap_build (int ?n) (int ?n div 2 - 1) ?a ?s0 = (arr1, ss1)"
    by (cases "heap_build (int ?n) (int ?n div 2 - 1) ?a ?s0") auto
  obtain arr2 ss2 where x: "heap_extract (int ?n - 1) arr1 ss1 = (arr2, ss2)"
    by (cases "heap_extract (int ?n - 1) arr1 ss1") auto
  have g: "HeapSort_generateSteps xs = ss2 @ [createStep SORTED [0] arr2 False]"
    using b x by (simp add: HeapSort_generateSteps_def)
  have I0: "Inv ?n ?a ?s0 ?a"
    using Inv_step[OF Inv_nil[of ?a], of DIVIDE "[]"] by simp
  have r1: "Inv ?n ?a ss1 arr1 \<and> None \<notin> set arr1 \<and> heap_from arr1 (int ?n) 0"
  proof (rule heap_build_all[OF b I0 _ refl _ _ heap_from_leaves])
    show "- 1 \<le> int ?n div 2 - 1" by linarith
    show "int ?n div 2 - 1 < int ?n \<or> int ?n div 2 - 1 = - 1" by linarith
  qed simp
  have l1: "length arr1 = ?n" using r1 by (simp add: Inv_def)
  have r2: "Inv ?n ?a ss2 arr2 \<and> sorted arr2"
    using heap_extract_all[OF x, of ?n ?a] r1 tail_done_start[of arr1] l1 by auto
  show ?thesis unfolding sorts_by_swaps_def g
    using Inv_step[of ?n ?a ss2 arr2 SORTED "[0]"] r2 by auto
qed

subsection \<open>Merge sort: the trace\<close>

lemma mchain_append:
  "mchain a (xs @ ys) c = (\<exists>b. mchain a xs b \<and> mchain b ys c)"
  by (induction xs arbitrary: a) auto

lemma MInv_nil: "MInv (length a0) a0 [] a0"
  by (simp add: MInv_def)

lemma MInv_step:
  "MInv n a0 ss arr \<Longrightarrow> t \<noteq> SWAP \<Longrightarrow> MInv n a0 (ss @ [createStep t idx arr False]) arr"
  by (auto simp: MInv_def mchain_append createStep_def wf_mstep_def)

lemma MInv_select:
  "MInv n a0 ss arr \<Longrightarrow> 0 \<le> k \<Longrightarrow> k < int n \<Longrightarrow>
     MInv n a0 (ss @ [createStep SELECT [k] arr True]) (js_set arr k v)"
  by (auto simp: MInv_def mchain_append createStep_def wf_mstep_def select_index_ok_def
      length_js_set)

lemma mark_all_sorted_MInv:
  "MInv n a0 ss arr \<Longrightarrow> MInv n a0 (mark_all_sorted m i arr ss) arr"
proof (induction m i arr ss rule: mark_all_sorted.induct)
  case (1 m i arr ss)
  then show ?case
    by (subst mark_all_sorted.simps) (auto intro: MInv_step)
qed

subsection \<open>Merge sort: the temporary arrays\<close>

lemma js_set_end: "js_set t (int (length t)) v = t @ [v]"
  by (simp add: js_set_def)

lemma merge_copy_eq:
  "i = int (length t) \<Longrightarrow>
     merge_copy arr off cnt i t = t @ map (\<lambda>q. js_get arr (off + q)) [i..cnt - 1]"
proof (induction arr off cnt i t rule: merge_copy.induct)
  case (1 arr off cnt i t)
  show ?case
  proof (cases "i < cnt")
    case True
    have u: "[i..cnt - 1] = i # [i + 1..cnt - 1]" using True by (simp add: upto_rec1)
    have "merge_copy arr off cnt i t
            = merge_copy arr off cnt (i + 1) (js_set t i (js_get arr (off + i)))"
      using True by (simp add: merge_copy.simps[of arr off cnt i])
    also have "\<dots> = (t @ [js_get arr (off + i)])
                       @ map (\<lambda>q. js_get arr (off + q)) [i + 1..cnt - 1]"
      using "1.IH"[OF True] "1.prems" by (simp add: js_set_end)
    finally show ?thesis using u by simp
  next
    case False
    then show ?thesis by (simp add: merge_copy.simps[of arr off cnt i])
  qed
qed

lemma merge_copy_get:
  assumes "0 \<le> q" "q < cnt"
  shows "js_get (merge_copy arr off cnt 0 []) q = js_get arr (off + q)"
proof -
  have e: "merge_copy arr off cnt 0 [] = map (\<lambda>q. js_get arr (off + q)) [0..cnt - 1]"
    using merge_copy_eq[of 0 "[]" arr off cnt] by simp
  have "[0..cnt - 1] ! nat q = q" using assms by (simp add: nth_upto)
  then show ?thesis unfolding e using assms by (simp add: js_get_def)
qed

subsection \<open>Merge sort: the merging loops\<close>

lemma seg_empty [simp]: "hi < lo \<Longrightarrow> seg a lo hi = []"
  by (simp add: seg_def)

lemma seg_snoc: "lo \<le> hi \<Longrightarrow> seg a lo hi = seg a lo (hi - 1) @ [js_get a hi]"
  by (simp add: seg_def upto_rec2)

lemma seg_cons: "lo \<le> hi \<Longrightarrow> seg a lo hi = js_get a lo # seg a (lo + 1) hi"
  by (simp add: seg_def upto_rec1)

lemma seg_append: "lo \<le> m + 1 \<Longrightarrow> m \<le> hi \<Longrightarrow> seg a lo hi = seg a lo m @ seg a (m + 1) hi"
proof (cases "lo \<le> m")
  case True
  assume "m \<le> hi"
  then show ?thesis using True upto_split2[of lo m hi] by (simp add: seg_def)
next
  case False
  assume "lo \<le> m + 1"
  then have "m + 1 = lo" using False by simp
  then show ?thesis using False by simp
qed

lemma seg_frame:
  "frame a b lo hi \<Longrightarrow> hi' < lo \<or> hi < lo' \<Longrightarrow> seg b lo' hi' = seg a lo' hi'"
  unfolding seg_def frame_def by (intro map_cong) auto

lemma frame_js_set:
  "0 \<le> k \<Longrightarrow> k < int (length a) \<Longrightarrow> frame a (js_set a k v) k k"
  unfolding frame_def by (auto simp: js_get_js_set)

lemma defined_js_set:
  "None \<notin> set a \<Longrightarrow> v \<noteq> None \<Longrightarrow> 0 \<le> k \<Longrightarrow> k < int (length a) \<Longrightarrow> None \<notin> set (js_set a k v)"
  using set_update_subset_insert[of a "nat k" v] by (auto simp: js_set_def)

text \<open>Placing the next value \<open>v\<close> at \<open>k\<close>, behind a sorted range of smaller values.\<close>

lemma place_sorted:
  assumes "range_sorted a left (k - 1)" "\<forall>p. left \<le> p \<and> p < k \<longrightarrow> js_get a p \<le> v"
    and "0 \<le> k" "k < int (length a)"
  shows "range_sorted (js_set a k v) left k"
  unfolding range_sorted_def
proof (intro allI impI)
  fix p q assume a: "left \<le> p \<and> p \<le> q \<and> q \<le> k"
  show "js_get (js_set a k v) p \<le> js_get (js_set a k v) q"
  proof (cases "q = k")
    case True
    then show ?thesis using assms a by (cases "p = k") (auto simp: js_get_js_set)
  next
    case False
    then show ?thesis using assms a unfolding range_sorted_def by (auto simp: js_get_js_set)
  qed
qed

lemma merge_rest_all:
  assumes "merge_rest T cnt i k arr ss = (k', arr', ss')"
    and "MInv n a0 ss arr" "None \<notin> set arr" "0 \<le> left" "left \<le> k" "0 \<le> i"
    and "i < cnt \<longrightarrow> k + (cnt - i) \<le> int n"
    and "\<forall>p q. i \<le> p \<and> p \<le> q \<and> q < cnt \<longrightarrow> js_get T p \<le> js_get T q"
    and "\<forall>q. i \<le> q \<and> q < cnt \<longrightarrow> js_get T q \<noteq> None"
    and "range_sorted arr left (k - 1)"
    and "\<forall>p q. left \<le> p \<and> p < k \<and> i \<le> q \<and> q < cnt \<longrightarrow> js_get arr p \<le> js_get T q"
  shows "MInv n a0 ss' arr' \<and> None \<notin> set arr' \<and> k' = k + max 0 (cnt - i)
       \<and> range_sorted arr' left (k' - 1) \<and> frame arr arr' k (k' - 1)
       \<and> mset (seg arr' k (k' - 1)) = mset (seg T i (cnt - 1))"
  using assms
proof (induction T cnt i k arr ss rule: merge_rest.induct)
  case (1 T cnt i k arr ss)
  note I = "1.prems"(2) and df = "1.prems"(3) and l0 = "1.prems"(4) and lk = "1.prems"(5)
    and i0 = "1.prems"(6) and kn = "1.prems"(7) and Ts = "1.prems"(8) and Td = "1.prems"(9)
    and rs = "1.prems"(10) and cT = "1.prems"(11)
  have len: "length arr = n" using I by (simp add: MInv_def)
  show ?case
  proof (cases "i < cnt")
    case False
    then have "k' = k" "arr' = arr" "ss' = ss"
      using "1.prems"(1) by (auto simp: merge_rest.simps[of T cnt i k arr ss])
    then show ?thesis using I df rs False frame_refl by simp
  next
    case True
    let ?v = "js_get T i"
    let ?a = "js_set arr k ?v"
    let ?s = "ss @ [createStep SELECT [k] arr True]"
    have e: "merge_rest T cnt (i + 1) (k + 1) ?a ?s = (k', arr', ss')"
      using "1.prems"(1) True by (simp add: merge_rest.simps[of T cnt i k arr ss])
    have rk: "0 \<le> k" "k < int (length arr)" using l0 lk kn True len by auto
    have la: "length ?a = length arr" using length_js_set[OF rk] .
    have I2: "MInv n a0 ?s ?a" using MInv_select[OF I] rk len by simp
    have d2: "None \<notin> set ?a" using defined_js_set[OF df _ rk] Td True i0 by simp
    have rs2: "range_sorted ?a left (k + 1 - 1)"
      using place_sorted[OF rs _ rk, of ?v] cT True i0 by simp
    have g: "\<And>p. js_get ?a p = (if p = k then ?v else js_get arr p)"
      using js_get_js_set[OF rk] by simp
    have cT2: "\<forall>p q. left \<le> p \<and> p < k + 1 \<and> i + 1 \<le> q \<and> q < cnt
                 \<longrightarrow> js_get ?a p \<le> js_get T q"
    proof (intro allI impI)
      fix p q assume a: "left \<le> p \<and> p < k + 1 \<and> i + 1 \<le> q \<and> q < cnt"
      show "js_get ?a p \<le> js_get T q"
      proof (cases "p = k")
        case True
        then show ?thesis using Ts a by (simp add: g)
      next
        case False
        then show ?thesis using cT a by (simp add: g)
      qed
    qed
    have r: "MInv n a0 ss' arr' \<and> None \<notin> set arr' \<and> k' = k + 1 + max 0 (cnt - (i + 1))
       \<and> range_sorted arr' left (k' - 1) \<and> frame ?a arr' (k + 1) (k' - 1)
       \<and> mset (seg arr' (k + 1) (k' - 1)) = mset (seg T (i + 1) (cnt - 1))"
    proof (rule "1.IH"[OF True e I2 d2 l0 _ _ _ _ _ rs2 cT2])
      show "left \<le> k + 1" using lk by simp
      show "0 \<le> i + 1" using i0 by simp
      show "i + 1 < cnt \<longrightarrow> k + 1 + (cnt - (i + 1)) \<le> int n" using kn True by simp
      show "\<forall>p q. i + 1 \<le> p \<and> p \<le> q \<and> q < cnt \<longrightarrow> js_get T p \<le> js_get T q"
        using Ts by simp
      show "\<forall>q. i + 1 \<le> q \<and> q < cnt \<longrightarrow> js_get T q \<noteq> None" using Td by simp
    qed
    have k': "k' = k + max 0 (cnt - i)" "k < k'" using r True by auto
    have f: "frame arr arr' k (k' - 1)"
      using frame_trans[of arr ?a k "k' - 1" arr' "k + 1" "k' - 1"] frame_js_set[OF rk, of ?v] r k'
      unfolding frame_def by auto
    have fr: "frame ?a arr' (k + 1) (k' - 1)" using r by blast
    have mr: "mset (seg arr' (k + 1) (k' - 1)) = mset (seg T (i + 1) (cnt - 1))"
      using r by blast
    have "js_get arr' k = ?v" using fr unfolding frame_def by (simp add: g)
    then have s1: "seg arr' k (k' - 1) = ?v # seg arr' (k + 1) (k' - 1)"
      using seg_cons[of k "k' - 1" arr'] k'(2) by simp
    have s2: "seg T i (cnt - 1) = ?v # seg T (i + 1) (cnt - 1)"
      using seg_cons[of i "cnt - 1" T] True by simp
    have m: "mset (seg arr' k (k' - 1)) = mset (seg T i (cnt - 1))"
      unfolding s1 s2 using mr by simp
    have "MInv n a0 ss' arr'" "None \<notin> set arr'" "range_sorted arr' left (k' - 1)"
      using r by blast+
    then show ?thesis using k'(1) f m by blast
  qed
qed

lemma merge_both_all:
  assumes "merge_both L R n1 n2 left mid i j k arr ss = (i', j', k', arr', ss')"
    and "MInv n a0 ss arr" "None \<notin> set arr" "0 \<le> left" "left \<le> k" "0 \<le> i" "0 \<le> j"
    and "i \<le> n1" "j \<le> n2" "k + (n1 - i) + (n2 - j) \<le> int n"
    and "\<forall>p q. i \<le> p \<and> p \<le> q \<and> q < n1 \<longrightarrow> js_get L p \<le> js_get L q"
    and "\<forall>q. i \<le> q \<and> q < n1 \<longrightarrow> js_get L q \<noteq> None"
    and "\<forall>p q. j \<le> p \<and> p \<le> q \<and> q < n2 \<longrightarrow> js_get R p \<le> js_get R q"
    and "\<forall>q. j \<le> q \<and> q < n2 \<longrightarrow> js_get R q \<noteq> None"
    and "range_sorted arr left (k - 1)"
    and "\<forall>p q. left \<le> p \<and> p < k \<and> i \<le> q \<and> q < n1 \<longrightarrow> js_get arr p \<le> js_get L q"
    and "\<forall>p q. left \<le> p \<and> p < k \<and> j \<le> q \<and> q < n2 \<longrightarrow> js_get arr p \<le> js_get R q"
  shows "MInv n a0 ss' arr' \<and> None \<notin> set arr' \<and> i \<le> i' \<and> i' \<le> n1 \<and> j \<le> j' \<and> j' \<le> n2
       \<and> (i' = n1 \<or> j' = n2) \<and> k' = k + (i' - i) + (j' - j)
       \<and> range_sorted arr' left (k' - 1)
       \<and> (\<forall>p q. left \<le> p \<and> p < k' \<and> i' \<le> q \<and> q < n1 \<longrightarrow> js_get arr' p \<le> js_get L q)
       \<and> (\<forall>p q. left \<le> p \<and> p < k' \<and> j' \<le> q \<and> q < n2 \<longrightarrow> js_get arr' p \<le> js_get R q)
       \<and> frame arr arr' k (k' - 1)
       \<and> mset (seg arr' k (k' - 1)) + mset (seg L i' (n1 - 1)) + mset (seg R j' (n2 - 1))
           = mset (seg L i (n1 - 1)) + mset (seg R j (n2 - 1))"
  using assms
proof (induction L R n1 n2 left mid i j k arr ss rule: merge_both.induct)
  case (1 L R n1 n2 left mid i j k arr ss)
  note I = "1.prems"(2) and df = "1.prems"(3) and l0 = "1.prems"(4) and lk = "1.prems"(5)
    and i0 = "1.prems"(6) and j0 = "1.prems"(7) and in1 = "1.prems"(8) and jn2 = "1.prems"(9)
    and kn = "1.prems"(10) and Ls = "1.prems"(11) and Ld = "1.prems"(12)
    and Rs = "1.prems"(13) and Rd = "1.prems"(14) and rs = "1.prems"(15)
    and cL = "1.prems"(16) and cR = "1.prems"(17)
  have len: "length arr = n" using I by (simp add: MInv_def)
  show ?case
  proof (cases "i < n1 \<and> j < n2")
    case False
    then have "i' = i" "j' = j" "k' = k" "arr' = arr" "ss' = ss"
      using "1.prems"(1) by (auto simp: merge_both.simps[of L R n1 n2 left mid i j k arr ss])
    then show ?thesis using I df rs cL cR in1 jn2 False frame_refl by auto
  next
    case True
    then have ti: "i < n1" and tj: "j < n2" by auto
    have rk: "0 \<le> k" "k < int (length arr)" using l0 lk kn True len by auto
    have dLi: "js_get L i \<noteq> None" and dRj: "js_get R j \<noteq> None"
      using Ld Rd True i0 j0 by auto
    let ?c = "createStep COMPARE [left + i, mid + 1 + j] arr False"
    have Ic: "MInv n a0 (ss @ [?c]) arr" by (intro MInv_step I) simp
    show ?thesis
    proof (cases "js_le (js_get L i) (js_get R j)")
      case le: True
      then have lev: "js_get L i \<le> js_get R j" using dLi dRj by (simp add: js_le_iff)
      let ?v = "js_get L i"
      let ?a = "js_set arr k ?v"
      let ?s = "ss @ [?c, createStep SELECT [k] arr True]"
      have e: "merge_both L R n1 n2 left mid (i + 1) j (k + 1) ?a ?s = (i', j', k', arr', ss')"
        using "1.prems"(1) True le
        by (simp add: merge_both.simps[of L R n1 n2 left mid i j k arr ss])
      have I2: "MInv n a0 ?s ?a"
        unfolding append2 using MInv_select[OF Ic] rk len by simp
      have d2: "None \<notin> set ?a" using defined_js_set[OF df dLi rk] .
      have g: "\<And>p. js_get ?a p = (if p = k then ?v else js_get arr p)"
        using js_get_js_set[OF rk] by simp
      have rs2: "range_sorted ?a left (k + 1 - 1)"
        using place_sorted[OF rs _ rk, of ?v] cL ti by simp
      have cL2: "\<forall>p q. left \<le> p \<and> p < k + 1 \<and> i + 1 \<le> q \<and> q < n1
                   \<longrightarrow> js_get ?a p \<le> js_get L q"
      proof (intro allI impI)
        fix p q assume a: "left \<le> p \<and> p < k + 1 \<and> i + 1 \<le> q \<and> q < n1"
        show "js_get ?a p \<le> js_get L q"
        proof (cases "p = k")
          case True
          then show ?thesis using Ls a by (simp add: g)
        next
          case False
          then show ?thesis using cL a by (simp add: g)
        qed
      qed
      have cR2: "\<forall>p q. left \<le> p \<and> p < k + 1 \<and> j \<le> q \<and> q < n2
                   \<longrightarrow> js_get ?a p \<le> js_get R q"
      proof (intro allI impI)
        fix p q assume a: "left \<le> p \<and> p < k + 1 \<and> j \<le> q \<and> q < n2"
        show "js_get ?a p \<le> js_get R q"
        proof (cases "p = k")
          case True
          have "js_get R j \<le> js_get R q" using Rs a by simp
          then have "?v \<le> js_get R q" using lev by (rule order_trans[rotated])
          then show ?thesis using True by (simp add: g)
        next
          case False
          then show ?thesis using cR a by (simp add: g)
        qed
      qed
      have r: "MInv n a0 ss' arr' \<and> None \<notin> set arr' \<and> i + 1 \<le> i' \<and> i' \<le> n1 \<and> j \<le> j'
         \<and> j' \<le> n2 \<and> (i' = n1 \<or> j' = n2) \<and> k' = k + 1 + (i' - (i + 1)) + (j' - j)
         \<and> range_sorted arr' left (k' - 1)
         \<and> (\<forall>p q. left \<le> p \<and> p < k' \<and> i' \<le> q \<and> q < n1 \<longrightarrow> js_get arr' p \<le> js_get L q)
         \<and> (\<forall>p q. left \<le> p \<and> p < k' \<and> j' \<le> q \<and> q < n2 \<longrightarrow> js_get arr' p \<le> js_get R q)
         \<and> frame ?a arr' (k + 1) (k' - 1)
         \<and> mset (seg arr' (k + 1) (k' - 1)) + mset (seg L i' (n1 - 1)) + mset (seg R j' (n2 - 1))
           = mset (seg L (i + 1) (n1 - 1)) + mset (seg R j (n2 - 1))"
      proof (rule "1.IH"(1)[OF True le e I2 d2 l0 _ _ j0 _ jn2 _ _ _ Rs Rd rs2 cL2 cR2])
        show "left \<le> k + 1" using lk by simp
        show "0 \<le> i + 1" using i0 by simp
        show "i + 1 \<le> n1" using ti by simp
        show "k + 1 + (n1 - (i + 1)) + (n2 - j) \<le> int n" using kn by simp
        show "\<forall>p q. i + 1 \<le> p \<and> p \<le> q \<and> q < n1 \<longrightarrow> js_get L p \<le> js_get L q"
          using Ls by simp
        show "\<forall>q. i + 1 \<le> q \<and> q < n1 \<longrightarrow> js_get L q \<noteq> None" using Ld by simp
      qed
      have fr: "frame ?a arr' (k + 1) (k' - 1)" using r by blast
      have mr: "mset (seg arr' (k + 1) (k' - 1)) + mset (seg L i' (n1 - 1))
                  + mset (seg R j' (n2 - 1))
                = mset (seg L (i + 1) (n1 - 1)) + mset (seg R j (n2 - 1))" using r by blast
      have ks: "k' = k + (i' - i) + (j' - j)" "k < k'" using r by auto
      have f: "frame arr arr' k (k' - 1)"
        using fr frame_js_set[OF rk, of ?v] ks unfolding frame_def by auto
      have "js_get arr' k = ?v" using fr unfolding frame_def by (simp add: g)
      then have s1: "seg arr' k (k' - 1) = ?v # seg arr' (k + 1) (k' - 1)"
        using seg_cons[of k "k' - 1" arr'] ks(2) by simp
      have s2: "seg L i (n1 - 1) = ?v # seg L (i + 1) (n1 - 1)"
        using seg_cons[of i "n1 - 1" L] ti by simp
      have m: "mset (seg arr' k (k' - 1)) + mset (seg L i' (n1 - 1)) + mset (seg R j' (n2 - 1))
           = mset (seg L i (n1 - 1)) + mset (seg R j (n2 - 1))"
        unfolding s1 s2 using mr by simp
      have "MInv n a0 ss' arr'" "None \<notin> set arr'" "i \<le> i'" "i' \<le> n1" "j \<le> j'" "j' \<le> n2"
        "i' = n1 \<or> j' = n2" "range_sorted arr' left (k' - 1)"
        "\<forall>p q. left \<le> p \<and> p < k' \<and> i' \<le> q \<and> q < n1 \<longrightarrow> js_get arr' p \<le> js_get L q"
        "\<forall>p q. left \<le> p \<and> p < k' \<and> j' \<le> q \<and> q < n2 \<longrightarrow> js_get arr' p \<le> js_get R q"
        using r by (blast, blast, linarith, blast, blast, blast, blast, blast, blast, blast)
      then show ?thesis using ks(1) f m by blast
    next
      case nle: False
      then have ltv: "js_get R j < js_get L i" using dLi dRj by (simp add: js_le_iff)
      let ?v = "js_get R j"
      let ?a = "js_set arr k ?v"
      let ?s = "ss @ [?c, createStep SELECT [k] arr True]"
      have e: "merge_both L R n1 n2 left mid i (j + 1) (k + 1) ?a ?s = (i', j', k', arr', ss')"
        using "1.prems"(1) True nle
        by (simp add: merge_both.simps[of L R n1 n2 left mid i j k arr ss])
      have I2: "MInv n a0 ?s ?a"
        unfolding append2 using MInv_select[OF Ic] rk len by simp
      have d2: "None \<notin> set ?a" using defined_js_set[OF df dRj rk] .
      have g: "\<And>p. js_get ?a p = (if p = k then ?v else js_get arr p)"
        using js_get_js_set[OF rk] by simp
      have rs2: "range_sorted ?a left (k + 1 - 1)"
        using place_sorted[OF rs _ rk, of ?v] cR tj by simp
      have cL2: "\<forall>p q. left \<le> p \<and> p < k + 1 \<and> i \<le> q \<and> q < n1
                   \<longrightarrow> js_get ?a p \<le> js_get L q"
      proof (intro allI impI)
        fix p q assume a: "left \<le> p \<and> p < k + 1 \<and> i \<le> q \<and> q < n1"
        show "js_get ?a p \<le> js_get L q"
        proof (cases "p = k")
          case True
          have "js_get L i \<le> js_get L q" using Ls a by simp
          then have "?v \<le> js_get L q" using ltv by simp
          then show ?thesis using True by (simp add: g)
        next
          case False
          then show ?thesis using cL a by (simp add: g)
        qed
      qed
      have cR2: "\<forall>p q. left \<le> p \<and> p < k + 1 \<and> j + 1 \<le> q \<and> q < n2
                   \<longrightarrow> js_get ?a p \<le> js_get R q"
      proof (intro allI impI)
        fix p q assume a: "left \<le> p \<and> p < k + 1 \<and> j + 1 \<le> q \<and> q < n2"
        show "js_get ?a p \<le> js_get R q"
        proof (cases "p = k")
          case True
          then show ?thesis using Rs a by (simp add: g)
        next
          case False
          then show ?thesis using cR a by (simp add: g)
        qed
      qed
      have r: "MInv n a0 ss' arr' \<and> None \<notin> set arr' \<and> i \<le> i' \<and> i' \<le> n1 \<and> j + 1 \<le> j'
         \<and> j' \<le> n2 \<and> (i' = n1 \<or> j' = n2) \<and> k' = k + 1 + (i' - i) + (j' - (j + 1))
         \<and> range_sorted arr' left (k' - 1)
         \<and> (\<forall>p q. left \<le> p \<and> p < k' \<and> i' \<le> q \<and> q < n1 \<longrightarrow> js_get arr' p \<le> js_get L q)
         \<and> (\<forall>p q. left \<le> p \<and> p < k' \<and> j' \<le> q \<and> q < n2 \<longrightarrow> js_get arr' p \<le> js_get R q)
         \<and> frame ?a arr' (k + 1) (k' - 1)
         \<and> mset (seg arr' (k + 1) (k' - 1)) + mset (seg L i' (n1 - 1)) + mset (seg R j' (n2 - 1))
           = mset (seg L i (n1 - 1)) + mset (seg R (j + 1) (n2 - 1))"
      proof (rule "1.IH"(2)[OF True nle e I2 d2 l0 _ i0 _ in1 _ _ Ls Ld _ _ rs2 cL2 cR2])
        show "left \<le> k + 1" using lk by simp
        show "0 \<le> j + 1" using j0 by simp
        show "j + 1 \<le> n2" using tj by simp
        show "k + 1 + (n1 - i) + (n2 - (j + 1)) \<le> int n" using kn by simp
        show "\<forall>p q. j + 1 \<le> p \<and> p \<le> q \<and> q < n2 \<longrightarrow> js_get R p \<le> js_get R q"
          using Rs by simp
        show "\<forall>q. j + 1 \<le> q \<and> q < n2 \<longrightarrow> js_get R q \<noteq> None" using Rd by simp
      qed
      have fr: "frame ?a arr' (k + 1) (k' - 1)" using r by blast
      have mr: "mset (seg arr' (k + 1) (k' - 1)) + mset (seg L i' (n1 - 1))
                  + mset (seg R j' (n2 - 1))
                = mset (seg L i (n1 - 1)) + mset (seg R (j + 1) (n2 - 1))" using r by blast
      have ks: "k' = k + (i' - i) + (j' - j)" "k < k'" using r by auto
      have f: "frame arr arr' k (k' - 1)"
        using fr frame_js_set[OF rk, of ?v] ks unfolding frame_def by auto
      have "js_get arr' k = ?v" using fr unfolding frame_def by (simp add: g)
      then have s1: "seg arr' k (k' - 1) = ?v # seg arr' (k + 1) (k' - 1)"
        using seg_cons[of k "k' - 1" arr'] ks(2) by simp
      have s2: "seg R j (n2 - 1) = ?v # seg R (j + 1) (n2 - 1)"
        using seg_cons[of j "n2 - 1" R] tj by simp
      have m: "mset (seg arr' k (k' - 1)) + mset (seg L i' (n1 - 1)) + mset (seg R j' (n2 - 1))
           = mset (seg L i (n1 - 1)) + mset (seg R j (n2 - 1))"
        unfolding s1 s2 using mr by simp
      have "MInv n a0 ss' arr'" "None \<notin> set arr'" "i \<le> i'" "i' \<le> n1" "j \<le> j'" "j' \<le> n2"
        "i' = n1 \<or> j' = n2" "range_sorted arr' left (k' - 1)"
        "\<forall>p q. left \<le> p \<and> p < k' \<and> i' \<le> q \<and> q < n1 \<longrightarrow> js_get arr' p \<le> js_get L q"
        "\<forall>p q. left \<le> p \<and> p < k' \<and> j' \<le> q \<and> q < n2 \<longrightarrow> js_get arr' p \<le> js_get R q"
        using r by (blast, blast, blast, blast, linarith, blast, blast, blast, blast, blast)
      then show ?thesis using ks(1) f m by blast
    qed
  qed
qed

lemma range_mset_whole:
  assumes "length a = length b" "frame a b lo hi" "mset (seg b lo hi) = mset (seg a lo hi)"
    and "0 \<le> lo" "lo \<le> hi + 1" "hi < int (length a)"
  shows "mset b = mset a"
proof -
  let ?n = "int (length a)"
  have s: "[0..?n - 1] = [0..lo - 1] @ [lo..hi] @ [hi + 1..?n - 1]"
    using upto_three[OF assms(4,5,6)] .
  have l: "map (js_get b) [0..lo - 1] = map (js_get a) [0..lo - 1]"
    using assms(2) unfolding frame_def by (intro map_cong) auto
  have r: "map (js_get b) [hi + 1..?n - 1] = map (js_get a) [hi + 1..?n - 1]"
    using assms(2) unfolding frame_def by (intro map_cong) auto
  have "mset (map (js_get b) [0..?n - 1]) = mset (map (js_get a) [0..?n - 1])"
    unfolding s using assms(3) by (simp add: l r seg_def)
  moreover have "map (js_get b) [0..?n - 1] = b"
    using map_js_get_upto[of b] assms(1) by simp
  moreover have "map (js_get a) [0..?n - 1] = a"
    using map_js_get_upto[of a] by simp
  ultimately show ?thesis by metis
qed

lemma seg_copy:
  assumes "0 \<le> cnt"
  shows "seg (merge_copy arr off cnt 0 []) 0 (cnt - 1) = seg arr off (off + cnt - 1)"
proof (rule nth_equalityI)
  show "length (seg (merge_copy arr off cnt 0 []) 0 (cnt - 1))
          = length (seg arr off (off + cnt - 1))"
    by (simp add: seg_def)
next
  fix q assume "q < length (seg (merge_copy arr off cnt 0 []) 0 (cnt - 1))"
  then have q: "int q < cnt" by (simp add: seg_def)
  have a: "[0..cnt - 1] ! q = int q" "[off..off + cnt - 1] ! q = off + int q"
    using q by (simp_all add: nth_upto)
  have l: "q < length [0..cnt - 1]" "q < length [off..off + cnt - 1]" using q by simp_all
  show "seg (merge_copy arr off cnt 0 []) 0 (cnt - 1) ! q = seg arr off (off + cnt - 1) ! q"
    unfolding seg_def using l a merge_copy_get[of "int q" cnt arr off] q by simp
qed

lemma frame_same: "frame a b k (k - 1) \<Longrightarrow> js_get b p = js_get a p"
  unfolding frame_def by (cases "p < k") auto

lemma merge_all:
  assumes "merge left mid right arr ss = (arr', ss')"
    and "MInv n a0 ss arr" "None \<notin> set arr" "0 \<le> left" "left \<le> mid" "mid < right"
    and "right < int n" "range_sorted arr left mid" "range_sorted arr (mid + 1) right"
  shows "MInv n a0 ss' arr' \<and> None \<notin> set arr' \<and> frame arr arr' left right
       \<and> range_sorted arr' left right \<and> mset arr' = mset arr"
proof -
  note I = assms(2) and df = assms(3) and l0 = assms(4) and lm = assms(5) and mr = assms(6)
    and rn = assms(7)
  have len: "length arr = n" using I by (simp add: MInv_def)
  let ?n1 = "mid - left + 1" and ?n2 = "right - mid"
  let ?L = "merge_copy arr left ?n1 0 []" and ?R = "merge_copy arr (mid + 1) ?n2 0 []"
  let ?s0 = "ss @ [createStep MERGE [left, right] arr False]"
  have gL: "\<And>q. 0 \<le> q \<Longrightarrow> q < ?n1 \<Longrightarrow> js_get ?L q = js_get arr (left + q)"
    using merge_copy_get by simp
  have gR: "\<And>q. 0 \<le> q \<Longrightarrow> q < ?n2 \<Longrightarrow> js_get ?R q = js_get arr (mid + 1 + q)"
    using merge_copy_get by simp
  have Ls: "\<forall>p q. 0 \<le> p \<and> p \<le> q \<and> q < ?n1 \<longrightarrow> js_get ?L p \<le> js_get ?L q"
  proof (intro allI impI)
    fix p q assume a: "0 \<le> p \<and> p \<le> q \<and> q < ?n1"
    then have "js_get arr (left + p) \<le> js_get arr (left + q)"
      using assms(8) unfolding range_sorted_def by simp
    then show "js_get ?L p \<le> js_get ?L q" using gL[of p] gL[of q] a by simp
  qed
  have Rs: "\<forall>p q. 0 \<le> p \<and> p \<le> q \<and> q < ?n2 \<longrightarrow> js_get ?R p \<le> js_get ?R q"
  proof (intro allI impI)
    fix p q assume a: "0 \<le> p \<and> p \<le> q \<and> q < ?n2"
    then have "js_get arr (mid + 1 + p) \<le> js_get arr (mid + 1 + q)"
      using assms(9) unfolding range_sorted_def by simp
    then show "js_get ?R p \<le> js_get ?R q" using gR[of p] gR[of q] a by simp
  qed
  have Ld: "\<forall>q. 0 \<le> q \<and> q < ?n1 \<longrightarrow> js_get ?L q \<noteq> None"
  proof (intro allI impI)
    fix q assume a: "0 \<le> q \<and> q < ?n1"
    then have "\<exists>v. js_get arr (left + q) = Some v"
      using js_get_defined[OF df, of "left + q"] l0 mr rn len by simp
    then show "js_get ?L q \<noteq> None" using gL[of q] a by auto
  qed
  have Rd: "\<forall>q. 0 \<le> q \<and> q < ?n2 \<longrightarrow> js_get ?R q \<noteq> None"
  proof (intro allI impI)
    fix q assume a: "0 \<le> q \<and> q < ?n2"
    then have "\<exists>v. js_get arr (mid + 1 + q) = Some v"
      using js_get_defined[OF df, of "mid + 1 + q"] l0 lm rn len by simp
    then show "js_get ?R q \<noteq> None" using gR[of q] a by auto
  qed
  obtain i1 j1 k1 arr1 ss1 where
    b: "merge_both ?L ?R ?n1 ?n2 left mid 0 0 left arr ?s0 = (i1, j1, k1, arr1, ss1)"
    by (cases "merge_both ?L ?R ?n1 ?n2 left mid 0 0 left arr ?s0") auto
  obtain k2 arr2 ss2 where r1: "merge_rest ?L ?n1 i1 k1 arr1 ss1 = (k2, arr2, ss2)"
    by (cases "merge_rest ?L ?n1 i1 k1 arr1 ss1") auto
  obtain k3 arr3 ss3 where r2: "merge_rest ?R ?n2 j1 k2 arr2 ss2 = (k3, arr3, ss3)"
    by (cases "merge_rest ?R ?n2 j1 k2 arr2 ss2") auto
  have res: "arr' = arr3" "ss' = ss3"
    using assms(1) b r1 r2 by (auto simp: merge_def Let_def)
  have I0: "MInv n a0 ?s0 arr" by (intro MInv_step I) simp
  have B: "MInv n a0 ss1 arr1 \<and> None \<notin> set arr1 \<and> 0 \<le> i1 \<and> i1 \<le> ?n1 \<and> 0 \<le> j1 \<and> j1 \<le> ?n2
       \<and> (i1 = ?n1 \<or> j1 = ?n2) \<and> k1 = left + (i1 - 0) + (j1 - 0)
       \<and> range_sorted arr1 left (k1 - 1)
       \<and> (\<forall>p q. left \<le> p \<and> p < k1 \<and> i1 \<le> q \<and> q < ?n1 \<longrightarrow> js_get arr1 p \<le> js_get ?L q)
       \<and> (\<forall>p q. left \<le> p \<and> p < k1 \<and> j1 \<le> q \<and> q < ?n2 \<longrightarrow> js_get arr1 p \<le> js_get ?R q)
       \<and> frame arr arr1 left (k1 - 1)
       \<and> mset (seg arr1 left (k1 - 1)) + mset (seg ?L i1 (?n1 - 1)) + mset (seg ?R j1 (?n2 - 1))
           = mset (seg ?L 0 (?n1 - 1)) + mset (seg ?R 0 (?n2 - 1))"
  proof (rule merge_both_all[OF b I0 df l0 _ _ _ _ _ _ Ls Ld Rs Rd])
    show "range_sorted arr left (left - 1)" by (rule range_sorted_empty) simp
    show "\<forall>p q. left \<le> p \<and> p < left \<and> 0 \<le> q \<and> q < ?n1 \<longrightarrow> js_get arr p \<le> js_get ?L q"
      by (intro allI impI) linarith
    show "\<forall>p q. left \<le> p \<and> p < left \<and> 0 \<le> q \<and> q < ?n2 \<longrightarrow> js_get arr p \<le> js_get ?R q"
      by (intro allI impI) linarith
    show "left + (?n1 - 0) + (?n2 - 0) \<le> int n" using rn by simp
  qed (use lm mr in simp_all)
  have B1: "MInv n a0 ss1 arr1" "None \<notin> set arr1" "0 \<le> i1" "i1 \<le> ?n1" "0 \<le> j1" "j1 \<le> ?n2"
    "i1 = ?n1 \<or> j1 = ?n2" "k1 = left + i1 + j1" "range_sorted arr1 left (k1 - 1)"
    "\<forall>p q. left \<le> p \<and> p < k1 \<and> i1 \<le> q \<and> q < ?n1 \<longrightarrow> js_get arr1 p \<le> js_get ?L q"
    "\<forall>p q. left \<le> p \<and> p < k1 \<and> j1 \<le> q \<and> q < ?n2 \<longrightarrow> js_get arr1 p \<le> js_get ?R q"
    "frame arr arr1 left (k1 - 1)"
    using B by (blast, blast, blast, blast, blast, blast, blast, simp, blast, blast, blast, blast)
  have Bm: "mset (seg arr1 left (k1 - 1)) + mset (seg ?L i1 (?n1 - 1)) + mset (seg ?R j1 (?n2 - 1))
           = mset (seg ?L 0 (?n1 - 1)) + mset (seg ?R 0 (?n2 - 1))" using B by blast
  have C: "MInv n a0 ss2 arr2 \<and> None \<notin> set arr2 \<and> k2 = k1 + max 0 (?n1 - i1)
       \<and> range_sorted arr2 left (k2 - 1) \<and> frame arr1 arr2 k1 (k2 - 1)
       \<and> mset (seg arr2 k1 (k2 - 1)) = mset (seg ?L i1 (?n1 - 1))"
  proof (rule merge_rest_all[OF r1 B1(1,2) l0 _ B1(3) _ _ _ B1(9,10)])
    show "left \<le> k1" using B1 by simp
    show "i1 < ?n1 \<longrightarrow> k1 + (?n1 - i1) \<le> int n" using B1 rn by auto
    show "\<forall>p q. i1 \<le> p \<and> p \<le> q \<and> q < ?n1 \<longrightarrow> js_get ?L p \<le> js_get ?L q"
      using Ls B1(3) by simp
    show "\<forall>q. i1 \<le> q \<and> q < ?n1 \<longrightarrow> js_get ?L q \<noteq> None" using Ld B1(3) by simp
  qed
  have C1: "MInv n a0 ss2 arr2" "None \<notin> set arr2" "k2 = k1 + (?n1 - i1)"
    "range_sorted arr2 left (k2 - 1)" "frame arr1 arr2 k1 (k2 - 1)"
    "mset (seg arr2 k1 (k2 - 1)) = mset (seg ?L i1 (?n1 - 1))"
    using C B1(4) by (blast, blast, simp, blast, blast, blast)
  have cR2: "\<forall>p q. left \<le> p \<and> p < k2 \<and> j1 \<le> q \<and> q < ?n2 \<longrightarrow> js_get arr2 p \<le> js_get ?R q"
  proof (cases "i1 = ?n1")
    case True
    then have "k2 = k1" using C1(3) by simp
    then have "\<And>p. js_get arr2 p = js_get arr1 p" using C1(5) frame_same by simp
    then show ?thesis using B1(11) \<open>k2 = k1\<close> by simp
  next
    case False
    then have j: "j1 = ?n2" using B1(7) by simp
    show ?thesis unfolding j by (intro allI impI) linarith
  qed
  have D: "MInv n a0 ss3 arr3 \<and> None \<notin> set arr3 \<and> k3 = k2 + max 0 (?n2 - j1)
       \<and> range_sorted arr3 left (k3 - 1) \<and> frame arr2 arr3 k2 (k3 - 1)
       \<and> mset (seg arr3 k2 (k3 - 1)) = mset (seg ?R j1 (?n2 - 1))"
  proof (rule merge_rest_all[OF r2 C1(1,2) l0 _ B1(5) _ _ _ C1(4) cR2])
    show "left \<le> k2" using B1 C1(3) by simp
    show "j1 < ?n2 \<longrightarrow> k2 + (?n2 - j1) \<le> int n" using B1 C1(3) rn by auto
    show "\<forall>p q. j1 \<le> p \<and> p \<le> q \<and> q < ?n2 \<longrightarrow> js_get ?R p \<le> js_get ?R q"
      using Rs B1(5) by simp
    show "\<forall>q. j1 \<le> q \<and> q < ?n2 \<longrightarrow> js_get ?R q \<noteq> None" using Rd B1(5) by simp
  qed
  have D1: "MInv n a0 ss3 arr3" "None \<notin> set arr3" "k3 = right + 1"
    "range_sorted arr3 left (k3 - 1)" "frame arr2 arr3 k2 (k3 - 1)"
    "mset (seg arr3 k2 (k3 - 1)) = mset (seg ?R j1 (?n2 - 1))"
    using D B1(6,8) C1(3) by (blast, blast, simp, blast, blast, blast)
  have ord: "left \<le> k1" "k1 \<le> k2" "k2 \<le> right + 1"
    using B1 C1(3) D1(3) by auto
  have f: "frame arr arr3 left right"
    using B1(12) C1(5) D1(5) D1(3) ord unfolding frame_def by auto
  have sp: "seg arr3 left right = seg arr3 left (k1 - 1) @ seg arr3 k1 (k2 - 1) @ seg arr3 k2 right"
    using seg_append[of left "k1 - 1" right arr3] seg_append[of k1 "k2 - 1" right arr3] ord
    by simp
  have e1: "seg arr3 left (k1 - 1) = seg arr1 left (k1 - 1)"
    using seg_frame[OF C1(5), of "k1 - 1" left] seg_frame[OF D1(5), of "k1 - 1" left] ord
    by simp
  have e2: "seg arr3 k1 (k2 - 1) = seg arr2 k1 (k2 - 1)"
    using seg_frame[OF D1(5), of "k2 - 1" k1] by simp
  have sa: "seg arr left right = seg arr left mid @ seg arr (mid + 1) right"
    using seg_append[of left mid right arr] lm mr by simp
  have cL: "seg ?L 0 (?n1 - 1) = seg arr left mid"
    using seg_copy[of ?n1 arr left] lm by simp
  have cR: "seg ?R 0 (?n2 - 1) = seg arr (mid + 1) right"
    using seg_copy[of ?n2 arr "mid + 1"] mr by simp
  have "mset (seg arr3 left right) = mset (seg arr left right)"
    unfolding sp e1 e2 sa using Bm C1(6) D1(6) D1(3) cL cR by (simp add: add.assoc)
  then have m: "mset arr3 = mset arr"
    using range_mset_whole[of arr arr3 left right] f l0 lm mr rn len D1(1)
    by (simp add: MInv_def)
  show ?thesis unfolding res using D1 f m by simp
qed

lemma mergeSortRecursive_all:
  assumes "mergeSortRecursive left right arr ss = (arr', ss')"
    and "MInv n a0 ss arr" "None \<notin> set arr" "0 \<le> left" "right < int n"
  shows "MInv n a0 ss' arr' \<and> None \<notin> set arr' \<and> frame arr arr' left right
       \<and> range_sorted arr' left right \<and> mset arr' = mset arr"
  using assms
proof (induction left right arr ss arbitrary: arr' ss' rule: mergeSortRecursive.induct)
  case (1 left right arr ss)
  note I = "1.prems"(2) and df = "1.prems"(3) and l0 = "1.prems"(4) and rn = "1.prems"(5)
  show ?case
  proof (cases "left \<ge> right")
    case True
    then have "arr' = arr" "ss' = ss"
      using "1.prems"(1) by (auto simp: mergeSortRecursive.simps[of left right arr ss])
    then show ?thesis using I df True frame_refl range_sorted_empty by simp
  next
    case False
    let ?mid = "left + (right - left) div 2"
    let ?s0 = "ss @ [createStep DIVIDE [left, right] arr False]"
    have md: "left \<le> ?mid" "?mid < right" using False by auto
    obtain arr1 ss1 where m1: "mergeSortRecursive left ?mid arr ?s0 = (arr1, ss1)"
      by (cases "mergeSortRecursive left ?mid arr ?s0") auto
    obtain arr2 ss2 where m2: "mergeSortRecursive (?mid + 1) right arr1 ss1 = (arr2, ss2)"
      by (cases "mergeSortRecursive (?mid + 1) right arr1 ss1") auto
    have mg: "merge left ?mid right arr2 ss2 = (arr', ss')"
      using "1.prems"(1) False m1 m2
      by (simp add: mergeSortRecursive.simps[of left right arr ss])
    have I0: "MInv n a0 ?s0 arr" by (intro MInv_step I) simp
    have R1: "MInv n a0 ss1 arr1 \<and> None \<notin> set arr1 \<and> frame arr arr1 left ?mid
       \<and> range_sorted arr1 left ?mid \<and> mset arr1 = mset arr"
      using "1.IH"(1)[OF False m1 I0 df l0] md rn by simp
    have R2: "MInv n a0 ss2 arr2 \<and> None \<notin> set arr2 \<and> frame arr1 arr2 (?mid + 1) right
       \<and> range_sorted arr2 (?mid + 1) right \<and> mset arr2 = mset arr1"
      using "1.IH"(2)[OF False m1[symmetric] m2 _ _ _ rn] R1 md l0 by simp
    have s1: "range_sorted arr2 left ?mid"
      using R1 R2 unfolding range_sorted_def frame_def by auto
    have M: "MInv n a0 ss' arr' \<and> None \<notin> set arr' \<and> frame arr2 arr' left right
       \<and> range_sorted arr' left right \<and> mset arr' = mset arr2"
    proof (rule merge_all[OF mg _ _ l0 md rn s1])
      show "MInv n a0 ss2 arr2" "None \<notin> set arr2"
        "range_sorted arr2 (?mid + 1) right" using R2 by blast+
    qed
    have f: "frame arr arr' left right"
      using R1 R2 M md unfolding frame_def by auto
    show ?thesis using M R1 R2 f by simp
  qed
qed

lemma MInv_last:
  assumes "MInv n a0 ss arr" "ends_sorted ss"
  shows "arrayState (last ss) = arr"
proof -
  from assms(2) obtain bs s where ss: "ss = bs @ [s]" and t: "type s = SORTED"
    unfolding ends_sorted_def by (metis append_butlast_last_id)
  have "wf_mstep n s" using assms(1) unfolding MInv_def ss by simp
  then have "\<not> isUserAction s" using t by (auto simp: wf_mstep_def)
  then show ?thesis using assms(1) unfolding MInv_def ss by (auto simp: mchain_append)
qed

lemma MergeSort_sorts: "sorts_by_merge (MergeSort_generateSteps xs) xs"
proof -
  let ?a = "map Some xs" and ?n = "length xs"
  obtain arr1 ss where o: "mergeSortRecursive 0 (int ?n - 1) ?a [] = (arr1, ss)"
    by (cases "mergeSortRecursive 0 (int ?n - 1) ?a []") auto
  have r: "MInv ?n ?a ss arr1 \<and> None \<notin> set arr1 \<and> frame ?a arr1 0 (int ?n - 1)
       \<and> range_sorted arr1 0 (int ?n - 1) \<and> mset arr1 = mset ?a"
    using mergeSortRecursive_all[OF o MInv_nil[of ?a, simplified]] by simp
  have len: "length arr1 = ?n" using r by (simp add: MInv_def)
  have s: "sorted arr1" using range_sorted_all[of arr1] r len by simp
  have g: "MergeSort_generateSteps xs = mark_all_sorted (int ?n) 0 arr1 ss"
    using o len by (simp add: MergeSort_generateSteps_def)
  have I: "MInv ?n ?a (mark_all_sorted (int ?n) 0 arr1 ss) arr1"
    using mark_all_sorted_MInv r by simp
  have "mark_all_sorted (int ?n) 0 arr1 ss = [] \<or> ends_sorted (mark_all_sorted (int ?n) 0 arr1 ss)"
  proof (cases "?n = 0")
    case True
    then have "ss = []" using o by (simp add: mergeSortRecursive.simps)
    then show ?thesis using True by (simp add: mark_all_sorted_none)
  next
    case False
    then show ?thesis by (intro disjI2 mark_all_sorted_ends') simp
  qed
  then show ?thesis unfolding sorts_by_merge_def g using I s r by auto
qed


section \<open>Scoring of a move\<close>

lemma js_round_of_int: "js_round (of_int z) = z"
  unfolding js_round_def by (rule floor_unique) auto

lemma js_round_numeral [simp]: "js_round (numeral k) = numeral k"
  using js_round_of_int[of "numeral k"] by simp

lemma js_round_nonneg: "0 \<le> x \<Longrightarrow> 0 \<le> js_round x"
  unfolding js_round_def by simp

subsection \<open>Rounding to a double\<close>

lemma bitlen_powi_bounds:
  assumes "0 < p"
  shows "(2 :: rat) powi (bitlen p - 1) \<le> of_int p" and "of_int p < (2 :: rat) powi bitlen p"
proof -
  have b: "2 ^ nat (bitlen p - 1) \<le> p" "p < 2 ^ nat (bitlen p)"
    using bitlen_bounds[OF assms] by simp_all
  have b1: "1 \<le> bitlen p" using assms by (simp add: bitlen_ge_iff_power)
  have "(2 :: rat) ^ nat (bitlen p - 1) \<le> of_int p"
    using b(1) by (metis of_int_le_iff of_int_numeral of_int_power)
  then show "(2 :: rat) powi (bitlen p - 1) \<le> of_int p"
    using b1 by (simp add: power_int_def)
  have "of_int p < (2 :: rat) ^ nat (bitlen p)"
    using b(2) by (metis of_int_less_iff of_int_numeral of_int_power)
  then show "of_int p < (2 :: rat) powi bitlen p"
    using b1 by (simp add: power_int_def)
qed

lemma binary_exponent_bounds:
  assumes "0 < x"
  shows "2 powi binary_exponent x \<le> x" and "x < 2 powi (binary_exponent x + 1)"
proof -
  obtain p q where pq: "quotient_of x = (p, q)" by (cases "quotient_of x")
  have q0: "0 < q" using quotient_of_denom_pos[OF pq] .
  have x: "x = of_int p / of_int q" using quotient_of_div[OF pq] .
  have p0: "0 < p" using assms q0 unfolding x by (simp add: zero_less_divide_iff)
  define e where "e = bitlen p - bitlen q"
  note P = bitlen_powi_bounds[OF p0] and Q = bitlen_powi_bounds[OF q0]
  have qr: "(0 :: rat) < of_int q" using q0 by simp
  have pos: "\<And>k. (0 :: rat) < 2 powi k" by simp
  have pr: "(0 :: rat) \<le> of_int p" using p0 by simp
  have "x < 2 powi bitlen p / 2 powi (bitlen q - 1)"
    unfolding x by (rule frac_less[OF pr P(2) pos Q(1)])
  also have "\<dots> = 2 powi (e + 1)"
    by (simp add: e_def power_int_diff[symmetric] algebra_simps)
  finally have U: "x < 2 powi (e + 1)" .
  have "2 powi (bitlen p - 1) / 2 powi bitlen q < x"
    unfolding x by (rule frac_less2[OF pos P(1) qr Q(2)])
  moreover have "(2 :: rat) powi (bitlen p - 1) / 2 powi bitlen q = 2 powi (e - 1)"
    by (simp add: e_def power_int_diff[symmetric] algebra_simps)
  ultimately have L: "2 powi (e - 1) < x" by simp
  have be: "binary_exponent x = (if 2 powi e \<le> x then e else e - 1)"
    by (simp add: binary_exponent_def pq e_def Let_def)
  show "2 powi binary_exponent x \<le> x" using be L by auto
  show "x < 2 powi (binary_exponent x + 1)" using be U by auto
qed

lemma round_half_even_nonneg: "0 \<le> x \<Longrightarrow> 0 \<le> round_half_even x"
  by (auto simp: round_half_even_def Let_def)

lemma round_half_even_le:
  assumes "x \<le> of_int n"
  shows "round_half_even x \<le> n"
proof -
  have f: "\<lfloor>x\<rfloor> \<le> n" using assms by (simp add: floor_le_iff)
  show ?thesis
  proof (cases "\<lfloor>x\<rfloor> = n")
    case True
    then have "x - of_int \<lfloor>x\<rfloor> \<le> 0" using assms by simp
    then show ?thesis using True by (auto simp: round_half_even_def Let_def)
  next
    case False
    then have "\<lfloor>x\<rfloor> + 1 \<le> n" using f by simp
    then show ?thesis using f by (auto simp: round_half_even_def Let_def)
  qed
qed

lemma to_double_nonneg: "0 \<le> x \<Longrightarrow> 0 \<le> to_double x"
  by (auto simp: to_double_def Let_def sgn_if intro!: mult_nonneg_nonneg round_half_even_nonneg)

lemma to_double_nonpos:
  assumes "x \<le> 0"
  shows "to_double x \<le> 0"
proof (cases "x = 0")
  case True
  then show ?thesis by (simp add: to_double_def)
next
  case False
  define u :: rat where "u = 2 powi (binary_exponent \<bar>x\<bar> - 52)"
  have u0: "0 < u" by (simp add: u_def)
  have "0 \<le> \<bar>x\<bar> / u" using u0 by simp
  then have "0 \<le> round_half_even (\<bar>x\<bar> / u)" by (rule round_half_even_nonneg)
  then have "0 \<le> rat_of_int (round_half_even (\<bar>x\<bar> / u)) * u" using u0 by simp
  moreover have "to_double x = - (of_int (round_half_even (\<bar>x\<bar> / u)) * u)"
    using False assms by (simp add: to_double_def Let_def u_def sgn_if)
  ultimately show ?thesis by simp
qed

lemma to_double_le_one:
  assumes "x < 1"
  shows "to_double x \<le> 1"
proof (cases "0 < x")
  case False
  then have "to_double x \<le> 0" by (intro to_double_nonpos) simp
  then show ?thesis by simp
next
  case True
  define e where "e = binary_exponent x"
  define u :: rat where "u = 2 powi (e - 52)"
  have u0: "0 < u" by (simp add: u_def)
  note B = binary_exponent_bounds[OF True, folded e_def]
  have "(2 :: rat) powi e < 1" using B(1) assms by simp
  then have e0: "e < 0"
    by (metis not_le one_le_power_int order.strict_iff_not one_le_numeral)
  define K :: int where "K = 2 ^ 53"
  have K: "rat_of_int K = 2 powi 53" by (simp add: K_def power_int_def)
  have s: "(2 :: rat) powi (e + 1) = 2 powi 53 * 2 powi (e - 52)"
  proof -
    have "(2 :: rat) powi (53 + (e - 52)) = 2 powi 53 * 2 powi (e - 52)"
      by (rule power_int_add) simp
    moreover have "53 + (e - 52) = e + 1" by simp
    ultimately show ?thesis by (simp only:)
  qed
  have "x / u < 2 powi (e + 1) / u" using B(2) u0 by (simp add: divide_strict_right_mono)
  also have "\<dots> = rat_of_int K" unfolding s K using u0 by (simp add: u_def)
  finally have "x / u \<le> rat_of_int K" by simp
  then have r: "round_half_even (x / u) \<le> K" by (rule round_half_even_le)
  have td: "to_double x = of_int (round_half_even (x / u)) * u"
    using True by (simp add: to_double_def Let_def u_def e_def)
  have "to_double x \<le> rat_of_int K * u"
    unfolding td using r u0 by (intro mult_right_mono) (simp_all only: of_int_le_iff)
  also have "\<dots> = 2 powi (e + 1)" unfolding s K by (simp add: u_def)
  also have "\<dots> \<le> 1" using power_int_increasing[of "e + 1" 0 "2 :: rat"] e0 by simp
  finally show ?thesis .
qed

subsection \<open>The fields that a move changes\<close>

lemma bonus_ratio: "t < o' \<Longrightarrow> 0 < o' \<Longrightarrow> t / o' < (1 :: rat)"
  by (simp add: divide_less_eq)

lemma advanceToNextUserAction_fields:
  "score (advanceToNextUserAction g) = score g"
  "streak (advanceToNextUserAction g) = streak g"
  "maxStreak (advanceToNextUserAction g) = maxStreak g"
  "correctMoves (advanceToNextUserAction g) = correctMoves g"
  "incorrectMoves (advanceToNextUserAction g) = incorrectMoves g"
  "difficulty (advanceToNextUserAction g) = difficulty g"
  "isGameComplete (advanceToNextUserAction g) = isGameComplete g"
  "gameSteps (advanceToNextUserAction g) = gameSteps g"
  by (simp_all add: advanceToNextUserAction_def split: prod.splits)

lemma completeGame_fields:
  "streak (completeGame now g) = streak g"
  "maxStreak (completeGame now g) = maxStreak g"
  "correctMoves (completeGame now g) = correctMoves g"
  "incorrectMoves (completeGame now g) = incorrectMoves g"
  "difficulty (completeGame now g) = difficulty g"
  "isGameComplete (completeGame now g)"
  by (simp_all add: completeGame_def Let_def)

lemma completion_bonus_mono:
  fixes s b :: int
  assumes "c \<Longrightarrow> 0 \<le> b"
  shows "s \<le> (if p then (if c then s + b else s) + 150
             else if q then (if c then s + b else s) + 100
             else (if c then s + b else s))"
  using assms by auto

lemma completeGame_score: "score g \<le> score (completeGame now g)"
proof -
  define t where "t = to_double ((of_int (now - startTime g) :: rat) / 1000)"
  define o' where "o' = (of_nat (length (gameSteps g) * 2) :: rat)"
  define a where "a = to_double ((of_nat (correctMoves g) :: rat)
                                   / of_nat (correctMoves g + incorrectMoves g))"
  define b where "b = js_round (to_double (200 * to_double (1 - to_double (t / o'))))"
  have b: "0 \<le> b" if "t < o' \<and> o' \<noteq> 0"
  proof -
    have "0 \<le> o'" by (simp add: o'_def)
    then have "0 < o'" using that by linarith
    then have "t / o' < 1" using that by (intro bonus_ratio) simp_all
    then have "to_double (t / o') \<le> 1" by (rule to_double_le_one)
    then have "0 \<le> 1 - to_double (t / o')" by simp
    then have "0 \<le> to_double (1 - to_double (t / o'))" by (rule to_double_nonneg)
    then have "0 \<le> 200 * to_double (1 - to_double (t / o'))" by simp
    then have "0 \<le> to_double (200 * to_double (1 - to_double (t / o')))"
      by (rule to_double_nonneg)
    then show ?thesis unfolding b_def by (rule js_round_nonneg)
  qed
  have "score (completeGame now g)
          = (if correctMoves g + incorrectMoves g \<noteq> 0 \<and> a = 1
             then (if t < o' \<and> o' \<noteq> 0 then score g + b else score g) + 150
             else if correctMoves g + incorrectMoves g \<noteq> 0 \<and> a \<ge> to_double (9 / 10)
             then (if t < o' \<and> o' \<noteq> 0 then score g + b else score g) + 100
             else (if t < o' \<and> o' \<noteq> 0 then score g + b else score g))"
    unfolding completeGame_def Let_def t_def o'_def a_def b_def by simp
  then show ?thesis using completion_bonus_mono[OF b] by simp
qed

lemma correctMovePoints_round:
  "js_round (of_int (100 + (if k \<ge> 5 then 50 else 0)) * difficultyMultipliers d)
     = correctMovePoints d k"
  by (cases d) (simp_all add: difficultyMultipliers_def correctMovePoints_def)

lemma processMove_valid_step:
  assumes "pendingUserAction g" and "judgedValid g a"
  shows "resultPoints (fst (processMove now a g))
           = Some (correctMovePoints (difficulty g) (streak g + 1))"
    and "streak (snd (processMove now a g)) = streak g + 1"
    and "maxStreak (snd (processMove now a g)) = max (maxStreak g) (streak g + 1)"
    and "correctMoves (snd (processMove now a g)) = correctMoves g + 1"
    and "incorrectMoves (snd (processMove now a g)) = incorrectMoves g"
    and "difficulty (snd (processMove now a g)) = difficulty g"
    and "score g + correctMovePoints (difficulty g) (streak g + 1)
           \<le> score (snd (processMove now a g))"
    and "\<not> isGameComplete (snd (processMove now a g)) \<Longrightarrow>
           score (snd (processMove now a g))
             = score g + correctMovePoints (difficulty g) (streak g + 1)"
proof -
  obtain s where s: "js_nth (gameSteps g) (currentStepIndex g) = Some s" "isUserAction s"
    and act: "isGameActive g" "\<not> isGameComplete g"
    using assms(1) by (auto simp: pendingUserAction_def split: option.splits)
  obtain v ss where v: "validateMove (currentAlgorithm g) (gameSteps g) (currentStepIndex g) a = (v, ss)"
    by (cases "validateMove (currentAlgorithm g) (gameSteps g) (currentStepIndex g) a")
  have vv: "valid v" using assms(2) v by (simp add: judgedValid_def)
  define g1 where "g1 = g\<lparr>gameSteps := ss, correctMoves := correctMoves g + 1,
                           streak := streak g + 1\<rparr>"
  define g2 where "g2 = g1\<lparr>maxStreak := max (maxStreak g1) (streak g1)\<rparr>"
  define pts where "pts = js_round (of_int (100 + (if streak g2 \<ge> 5 then 50 else 0))
                                     * difficultyMultipliers (difficulty g2))"
  define g3 where "g3 = g2\<lparr>score := score g2 + pts\<rparr>"
  define g4 where "g4 = (if actionType a = ''swap''
             then g3\<lparr>currentArray := applySwap (currentArray g3) (actionIndices a)\<rparr>
             else g3)"
  define g5 where "g5 = advanceToNextUserAction (g4\<lparr>currentStepIndex := currentStepIndex g4 + 1\<rparr>)"
  define g6 where "g6 = (if currentStepIndex g5 \<ge> length (gameSteps g5)
                         then completeGame now g5 else g5)"
  have na: "(\<not> isGameActive g \<or> isGameComplete g) = False" using act by simp
  have us: "(\<not> isUserAction s) = False" using s(2) by simp
  have pm: "processMove now a g
              = (MoveValid (message v) pts (streak g6) (score g6) (isGameComplete g6), g6)"
    unfolding g6_def g5_def g4_def g3_def pts_def g2_def g1_def processMove_def
    by (simp only: na us s(1) v vv Let_def option.case prod.case if_True if_False)
  have p: "pts = correctMovePoints (difficulty g) (streak g + 1)"
    unfolding pts_def g2_def g1_def using correctMovePoints_round[of "streak g + 1" "difficulty g"]
    by simp
  have f3: "score g3 = score g + pts" "streak g3 = streak g + 1"
    "maxStreak g3 = max (maxStreak g) (streak g + 1)"
    "correctMoves g3 = correctMoves g + 1" "incorrectMoves g3 = incorrectMoves g"
    "difficulty g3 = difficulty g" "\<not> isGameComplete g3"
    using act by (simp_all add: g3_def g2_def g1_def)
  have f4: "score g4 = score g + pts" "streak g4 = streak g + 1"
    "maxStreak g4 = max (maxStreak g) (streak g + 1)"
    "correctMoves g4 = correctMoves g + 1" "incorrectMoves g4 = incorrectMoves g"
    "difficulty g4 = difficulty g" "\<not> isGameComplete g4"
    using f3 by (simp_all add: g4_def)
  have f5: "score g5 = score g + pts" "streak g5 = streak g + 1"
    "maxStreak g5 = max (maxStreak g) (streak g + 1)"
    "correctMoves g5 = correctMoves g + 1" "incorrectMoves g5 = incorrectMoves g"
    "difficulty g5 = difficulty g" "\<not> isGameComplete g5"
    using f4 by (simp_all add: g5_def advanceToNextUserAction_fields)
  have f6: "streak g6 = streak g + 1"
    "maxStreak g6 = max (maxStreak g) (streak g + 1)"
    "correctMoves g6 = correctMoves g + 1" "incorrectMoves g6 = incorrectMoves g"
    "difficulty g6 = difficulty g"
    using f5 by (simp_all add: g6_def completeGame_fields)
  have s6: "score g + pts \<le> score g6"
    using f5(1) completeGame_score[of g5 now] by (simp add: g6_def)
  have n6: "score g6 = score g + pts" if "\<not> isGameComplete g6"
  proof -
    have "\<not> (currentStepIndex g5 \<ge> length (gameSteps g5))"
      using that by (auto simp: g6_def completeGame_fields)
    then show ?thesis using f5(1) by (simp add: g6_def)
  qed
  show "resultPoints (fst (processMove now a g))
           = Some (correctMovePoints (difficulty g) (streak g + 1))"
    unfolding pm using p by (simp add: resultPoints_def)
  show "streak (snd (processMove now a g)) = streak g + 1"
    unfolding pm using f6 by simp
  show "maxStreak (snd (processMove now a g)) = max (maxStreak g) (streak g + 1)"
    unfolding pm using f6 by simp
  show "correctMoves (snd (processMove now a g)) = correctMoves g + 1"
    unfolding pm using f6 by simp
  show "incorrectMoves (snd (processMove now a g)) = incorrectMoves g"
    unfolding pm using f6 by simp
  show "difficulty (snd (processMove now a g)) = difficulty g"
    unfolding pm using f6 by simp
  show "score g + correctMovePoints (difficulty g) (streak g + 1)
           \<le> score (snd (processMove now a g))"
    unfolding pm using s6 p by simp
  show "score (snd (processMove now a g))
             = score g + correctMovePoints (difficulty g) (streak g + 1)"
    if "\<not> isGameComplete (snd (processMove now a g))"
    using that n6 p unfolding pm by simp
qed

lemma map_upt_Suc_shift:
  "map h [Suc 0..<Suc (Suc n)] = h (Suc 0) # map (\<lambda>k. h (Suc k)) [Suc 0..<Suc n]"
proof -
  have "[Suc 0..<Suc (Suc n)] = Suc 0 # map Suc [Suc 0..<Suc n]"
    by (simp add: upt_conv_Cons map_Suc_upt del: upt_Suc)
  then show ?thesis by (simp add: comp_def del: upt_Suc)
qed

lemma allCorrect_not_complete:
  "allCorrect ms g \<Longrightarrow> ms \<noteq> [] \<Longrightarrow> \<not> isGameComplete g"
  by (cases ms) (auto simp: pendingUserAction_def)

lemma playMoves_correct:
  assumes "allCorrect ms g"
  shows "map resultPoints (fst (playMoves ms g))
           = map (\<lambda>k. Some (correctMovePoints (difficulty g) (streak g + k))) [1..<Suc (length ms)]
       \<and> streak (snd (playMoves ms g)) = streak g + length ms
       \<and> correctMoves (snd (playMoves ms g)) = correctMoves g + length ms
       \<and> incorrectMoves (snd (playMoves ms g)) = incorrectMoves g
       \<and> difficulty (snd (playMoves ms g)) = difficulty g
       \<and> score g + (\<Sum>k\<leftarrow>[1..<Suc (length ms)]. correctMovePoints (difficulty g) (streak g + k))
           \<le> score (snd (playMoves ms g))
       \<and> (\<not> isGameComplete (snd (playMoves ms g)) \<longrightarrow>
            score (snd (playMoves ms g))
              = score g + (\<Sum>k\<leftarrow>[1..<Suc (length ms)]. correctMovePoints (difficulty g) (streak g + k)))"
  using assms
proof (induction ms arbitrary: g)
  case Nil
  then show ?case by simp
next
  case (Cons m ms)
  obtain now a where m: "m = (now, a)" by (cases m)
  define g1 where "g1 = snd (processMove now a g)"
  define r where "r = fst (processMove now a g)"
  have pe: "pendingUserAction g" and jv: "judgedValid g a" and ac: "allCorrect ms g1"
    using Cons.prems by (simp_all add: m g1_def)
  note st = processMove_valid_step[OF pe jv, of now, folded g1_def r_def]
  have pl: "playMoves (m # ms) g = (r # fst (playMoves ms g1), snd (playMoves ms g1))"
    by (simp add: m g1_def r_def split: prod.splits)
  note IH = Cons.IH[OF ac, unfolded st(2) st(6)]
  let ?f = "\<lambda>k. correctMovePoints (difficulty g) (streak g + k)"
  have sh: "\<And>k. streak g + 1 + k = streak g + Suc k" by simp
  have pts: "map resultPoints (fst (playMoves (m # ms) g))
               = map (\<lambda>k. Some (?f k)) [1..<Suc (length (m # ms))]"
    using IH st(1) unfolding pl by (simp add: map_upt_Suc_shift sh del: upt_Suc)
  have sm: "(\<Sum>k\<leftarrow>[1..<Suc (length (m # ms))]. ?f k)
              = ?f 1 + (\<Sum>k\<leftarrow>[1..<Suc (length ms)]. ?f (Suc k))"
    using map_upt_Suc_shift[of ?f "length ms"] by (simp del: upt_Suc)
  have sc: "score g + (\<Sum>k\<leftarrow>[1..<Suc (length (m # ms))]. ?f k)
              \<le> score (snd (playMoves (m # ms) g))"
    using IH st(7) unfolding pl sm by (simp add: sh del: upt_Suc)
  have eq: "score (snd (playMoves (m # ms) g))
              = score g + (\<Sum>k\<leftarrow>[1..<Suc (length (m # ms))]. ?f k)"
    if nc: "\<not> isGameComplete (snd (playMoves (m # ms) g))"
  proof -
    have "\<not> isGameComplete g1"
    proof (cases "ms = []")
      case True
      then show ?thesis using nc unfolding pl by simp
    next
      case False
      then show ?thesis using allCorrect_not_complete[OF ac] by simp
    qed
    then have "score g1 = score g + ?f 1" using st(8) by simp
    then show ?thesis using IH nc unfolding pl sm by (simp add: sh del: upt_Suc)
  qed
  show ?case
    using pts sc eq IH st(4,5) unfolding pl by (simp del: upt_Suc)
qed

text \<open>
  Claim C4. A correct move, a move that the engine judges valid in an active session at
  a user-action step, increments the streak and the correct count and is awarded
  \<open>round ((100 + streakBonus) * multiplier)\<close> points, which are also added to the
  score; the streak bonus is 50 exactly when the streak, counting this move, is at
  least 5, and the multiplier is 1, 1.5, 2, 3 for easy, medium, hard, expert. In a run
  of consecutive correct moves from a streak of 0, the fifth move is therefore the
  first with the bonus. The points are 100, 150, 200, 300 without and 150, 225, 300,
  450 with the bonus, and \<^verbatim>\<open>calculateCorrectMoveScore\<close> computes the same. The move
  that completes the game receives the completion bonuses on top.
\<close>

theorem processMove_correct_points:
  assumes "allCorrect ms g"
  shows "map resultPoints (fst (playMoves ms g))
           = map (\<lambda>k. Some (js_round (of_int (100 + (if streak g + k \<ge> 5 then 50 else 0))
                                         * difficultyMultipliers (difficulty g))))
                 [1..<Suc (length ms)]
       \<and> map resultPoints (fst (playMoves ms g))
           = map (\<lambda>k. Some (correctMovePoints (difficulty g) (streak g + k))) [1..<Suc (length ms)]
       \<and> streak (snd (playMoves ms g)) = streak g + length ms
       \<and> correctMoves (snd (playMoves ms g)) = correctMoves g + length ms
       \<and> incorrectMoves (snd (playMoves ms g)) = incorrectMoves g
       \<and> score g + (\<Sum>k\<leftarrow>[1..<Suc (length ms)]. correctMovePoints (difficulty g) (streak g + k))
           \<le> score (snd (playMoves ms g))
       \<and> (\<not> isGameComplete (snd (playMoves ms g)) \<longrightarrow>
            score (snd (playMoves ms g))
              = score g + (\<Sum>k\<leftarrow>[1..<Suc (length ms)]. correctMovePoints (difficulty g) (streak g + k)))
       \<and> totalPoints (calculateCorrectMoveScore d n) = correctMovePoints d n
       \<and> difficultyMultipliers easy = 1 \<and> difficultyMultipliers medium = 3 / 2
       \<and> difficultyMultipliers hard = 2 \<and> difficultyMultipliers expert = 3"
proof -
  have c: "totalPoints (calculateCorrectMoveScore d n) = correctMovePoints d n"
    using correctMovePoints_round[of n d] by (simp add: calculateCorrectMoveScore_def Let_def)
  have r: "(\<lambda>k. Some (js_round (of_int (100 + (if streak g + k \<ge> 5 then 50 else 0))
                                         * difficultyMultipliers (difficulty g))))
           = (\<lambda>k. Some (correctMovePoints (difficulty g) (streak g + k)))"
    using correctMovePoints_round by presburger
  show ?thesis
    unfolding r using playMoves_correct[OF assms] c by (simp add: difficultyMultipliers_def del: upt_Suc)
qed

theorem processMove_correct_points_witness:
  "allCorrect bubbleMoves bubbleGame
   \<and> streak bubbleGame = 0 \<and> score bubbleGame = 0 \<and> difficulty bubbleGame = medium
   \<and> map resultPoints (fst (playMoves bubbleMoves bubbleGame))
       = [Some 150, Some 150, Some 150, Some 150, Some 225, Some 225]
   \<and> streak (snd (playMoves bubbleMoves bubbleGame)) = 6
   \<and> \<not> isGameComplete (snd (playMoves bubbleMoves bubbleGame))
   \<and> score (snd (playMoves bubbleMoves bubbleGame)) = 1050"
proof -
  have a: "allCorrect bubbleMoves bubbleGame" by code_simp
  have s: "streak bubbleGame = 0" "score bubbleGame = 0" "difficulty bubbleGame = medium"
    by code_simp+
  have n: "\<not> isGameComplete (snd (playMoves bubbleMoves bubbleGame))" by code_simp
  have l: "length bubbleMoves = 6" by (simp add: bubbleMoves_def)
  have u: "[1..<Suc 6] = [1, 2, 3, 4, 5, 6]" by (simp add: upt_rec)
  from processMove_correct_points[OF a, of easy 0]
  have p: "map resultPoints (fst (playMoves bubbleMoves bubbleGame))
             = map (\<lambda>k. Some (correctMovePoints (difficulty bubbleGame) (streak bubbleGame + k)))
                   [1..<Suc (length bubbleMoves)]"
    and t: "streak (snd (playMoves bubbleMoves bubbleGame))
             = streak bubbleGame + length bubbleMoves"
    and c: "\<not> isGameComplete (snd (playMoves bubbleMoves bubbleGame)) \<longrightarrow>
            score (snd (playMoves bubbleMoves bubbleGame))
              = score bubbleGame
                + (\<Sum>k\<leftarrow>[1..<Suc (length bubbleMoves)].
                     correctMovePoints (difficulty bubbleGame) (streak bubbleGame + k))"
    by blast+
  have p': "map resultPoints (fst (playMoves bubbleMoves bubbleGame))
       = [Some 150, Some 150, Some 150, Some 150, Some 225, Some 225]"
    using p unfolding l u s by (simp add: correctMovePoints_def)
  have t': "streak (snd (playMoves bubbleMoves bubbleGame)) = 6"
    using t unfolding l s by simp
  have c': "score (snd (playMoves bubbleMoves bubbleGame)) = 1050"
    using c n unfolding l u s by (simp add: correctMovePoints_def)
  show ?thesis using a s n p' t' c' by simp
qed


text \<open>
  Claim C5. In an active session at a user-action step, a move that the engine judges
  invalid adds 1 to the incorrect count, resets the streak to 0, lowers the score by 50
  but not below 0, and leaves the cursor, the current array, the correct count and the
  active state as they are.
\<close>

theorem processMove_incorrect:
  assumes "pendingUserAction g" and "\<not> judgedValid g a"
  shows "incorrectMoves (snd (processMove now a g)) = incorrectMoves g + 1
       \<and> streak (snd (processMove now a g)) = 0
       \<and> score (snd (processMove now a g)) = max 0 (score g - 50)
       \<and> 0 \<le> score (snd (processMove now a g))
       \<and> currentStepIndex (snd (processMove now a g)) = currentStepIndex g
       \<and> currentArray (snd (processMove now a g)) = currentArray g
       \<and> correctMoves (snd (processMove now a g)) = correctMoves g
       \<and> isGameActive (snd (processMove now a g))
       \<and> \<not> isGameComplete (snd (processMove now a g))"
proof -
  obtain s where s: "js_nth (gameSteps g) (currentStepIndex g) = Some s" "isUserAction s"
    and act: "isGameActive g" "\<not> isGameComplete g"
    using assms(1) by (auto simp: pendingUserAction_def split: option.splits)
  obtain v ss where v: "validateMove (currentAlgorithm g) (gameSteps g) (currentStepIndex g) a = (v, ss)"
    by (cases "validateMove (currentAlgorithm g) (gameSteps g) (currentStepIndex g) a")
  have vv: "\<not> valid v" using assms(2) v by (simp add: judgedValid_def)
  show ?thesis
    using s act v vv by (simp add: processMove_def Let_def)
qed

theorem processMove_incorrect_witness:
  "pendingUserAction game2 \<and> \<not> judgedValid game2 (swapAction 0 0)
   \<and> score game2 = 120 \<and> incorrectMoves game2 = 1
   \<and> incorrectMoves (snd (processMove 1000 (swapAction 0 0) game2)) = 2
   \<and> streak (snd (processMove 1000 (swapAction 0 0) game2)) = 0
   \<and> score (snd (processMove 1000 (swapAction 0 0) game2)) = 70
   \<and> currentStepIndex (snd (processMove 1000 (swapAction 0 0) game2)) = currentStepIndex game2
   \<and> currentArray (snd (processMove 1000 (swapAction 0 0) game2)) = currentArray game2
   \<and> isGameActive (snd (processMove 1000 (swapAction 0 0) game2))"
proof -
  have p: "pendingUserAction game2" by code_simp
  have v: "\<not> judgedValid game2 (swapAction 0 0)" by code_simp
  have s: "score game2 = 120" "incorrectMoves game2 = 1" by code_simp+
  from processMove_incorrect[OF p v, of 1000] show ?thesis
    using p v s by simp
qed


section \<open>Merge selections\<close>

text \<open>
  Claim C2 says that the select step of a merge trace identifies the value placed at
  its position and that \<^verbatim>\<open>validateMove\<close> accepts exactly that value. The step is
  built before the write, so \<^verbatim>\<open>values[0]\<close> is the entry about to be overwritten:
  merging \<open>[2]\<close> and \<open>[1]\<close>, the step for position 0 records 2 while 1 is placed (the
  next snapshot shows it), and \<^verbatim>\<open>validateMove\<close> rejects 1 and accepts 2. The same
  happens at the first selection of a game on \<open>[50, 40, 30, 20, 10]\<close>.
\<close>

theorem merge_select_expects_old_value:
  "type (mergeTrace21 ! 3) = SELECT \<and> isUserAction (mergeTrace21 ! 3)
   \<and> indices (mergeTrace21 ! 3) = [0] \<and> vals (mergeTrace21 ! 3) = [Some 2]
   \<and> arrayState (mergeTrace21 ! 3) = [Some 2, Some 1]
   \<and> arrayState (mergeTrace21 ! 4) = [Some 1, Some 1]
   \<and> \<not> valid (fst (MergeSort_validateMove mergeTrace21 3 (selectAction 1)))
   \<and> valid (fst (MergeSort_validateMove mergeTrace21 3 (selectAction 2)))
   \<and> originalArray mergeGame = [50, 40, 30, 20, 10]
   \<and> pendingUserAction mergeGame \<and> currentStepIndex mergeGame = 5
   \<and> indices (gameSteps mergeGame ! 5) = [0]
   \<and> arrayState (gameSteps mergeGame ! 5) = [Some 50, Some 40, Some 30, Some 20, Some 10]
   \<and> arrayState (gameSteps mergeGame ! 6) = [Some 40, Some 40, Some 30, Some 20, Some 10]
   \<and> \<not> judgedValid mergeGame (selectAction 40)
   \<and> judgedValid mergeGame (selectAction 50)"
  by code_simp


section \<open>Skipping a step\<close>

text \<open>
  Claim C6 says that \<^verbatim>\<open>skipStep\<close> at a swap step leaves the current array with the
  two elements exchanged. \<^verbatim>\<open>skipStep\<close> overwrites the array with the step's
  snapshot, taken before the exchange; when the next step is again a user action,
  nothing repairs it. In the heap game the array stays
  \<open>[40, 10, 30, 20, 50]\<close>, where a correct \<^verbatim>\<open>processMove\<close> yields
  \<open>[40, 20, 30, 10, 50]\<close>; both move the cursor to 12.
\<close>

theorem skipStep_keeps_stale_array:
  "originalArray heapGame = [50, 40, 30, 20, 10]
   \<and> pendingUserAction heapGame \<and> currentStepIndex heapGame = 11
   \<and> type (gameSteps heapGame ! 11) = SWAP \<and> indices (gameSteps heapGame ! 11) = [1, 3]
   \<and> currentArray heapGame = [Some 40, Some 10, Some 30, Some 20, Some 50]
   \<and> applySwap (currentArray heapGame) [1, 3] = [Some 40, Some 20, Some 30, Some 10, Some 50]
   \<and> currentArray (snd (skipStep 3000 heapGame)) = [Some 40, Some 10, Some 30, Some 20, Some 50]
   \<and> currentStepIndex (snd (skipStep 3000 heapGame)) = 12
   \<and> judgedValid heapGame (swapAction 1 3)
   \<and> currentArray (snd (processMove 3000 (swapAction 1 3) heapGame))
        = [Some 40, Some 20, Some 30, Some 10, Some 50]
   \<and> currentStepIndex (snd (processMove 3000 (swapAction 1 3) heapGame)) = 12"
  by code_simp

theorem skipStep_keeps_stale_array_witness:
  "isGameActive heapGame \<and> \<not> isGameComplete heapGame
   \<and> currentArray (snd (skipStep 3000 heapGame))
       \<noteq> applySwap (currentArray heapGame) (indices (gameSteps heapGame ! 11))
   \<and> currentArray (snd (skipStep 3000 heapGame))
       \<noteq> currentArray (snd (processMove 3000 (swapAction 1 3) heapGame))"
proof -
  have a: "isGameActive heapGame \<and> \<not> isGameComplete heapGame" by code_simp
  have s: "currentArray (snd (skipStep 3000 heapGame))
             = [Some 40, Some 10, Some 30, Some 20, Some 50]"
    and p: "currentArray (snd (processMove 3000 (swapAction 1 3) heapGame))
             = [Some 40, Some 20, Some 30, Some 10, Some 50]"
    and i: "indices (gameSteps heapGame ! 11) = [1, 3]"
    and w: "applySwap (currentArray heapGame) [1, 3]
             = [Some 40, Some 20, Some 30, Some 10, Some 50]"
    using skipStep_keeps_stale_array by blast+
  show ?thesis unfolding s p i w using a by simp
qed


section \<open>Empty and singleton inputs\<close>

lemma singleton_traces:
  "BubbleSort_generateSteps [x] = []"
  "SelectionSort_generateSteps [x] = [createStep SORTED [0] [Some x] False]"
  "InsertionSort_generateSteps [x]
     = [createStep SORTED [0] [Some x] False, createStep SORTED [0] [Some x] False]"
  "MergeSort_generateSteps [x] = [createStep SORTED [0] [Some x] False]"
  "QuickSort_generateSteps [x]
     = [createStep SORTED [0] [Some x] False, createStep SORTED [0] [Some x] False]"
  "HeapSort_generateSteps [x]
     = [createStep DIVIDE [] [Some x] False, createStep SORTED [0] [Some x] False]"
  by (simp_all add: BubbleSort_generateSteps_def SelectionSort_generateSteps_def
      InsertionSort_generateSteps_def MergeSort_generateSteps_def QuickSort_generateSteps_def
      HeapSort_generateSteps_def bubble_outer.simps selection_outer.simps insertion_outer.simps
      mark_all_sorted.simps mergeSortRecursive.simps quickSortRecursive.simps
      heap_build.simps heap_extract.simps Let_def)

lemma empty_traces:
  "BubbleSort_generateSteps [] = []"
  "SelectionSort_generateSteps [] = [createStep SORTED [- 1] [] False]"
  "InsertionSort_generateSteps [] = [createStep SORTED [0] [] False]"
  "MergeSort_generateSteps [] = []"
  "QuickSort_generateSteps [] = []"
  "HeapSort_generateSteps []
     = [createStep DIVIDE [] [] False, createStep SORTED [0] [] False]"
  by (simp_all add: BubbleSort_generateSteps_def SelectionSort_generateSteps_def
      InsertionSort_generateSteps_def MergeSort_generateSteps_def QuickSort_generateSteps_def
      HeapSort_generateSteps_def bubble_outer.simps selection_outer.simps insertion_outer.simps
      mark_all_sorted.simps mergeSortRecursive.simps quickSortRecursive.simps
      heap_build.simps heap_extract.simps Let_def)

text \<open>
  Claim C7 as stated fails: the heap trace of a singleton starts with a \<open>DIVIDE\<close>
  step, and on the empty array insertion and heap mark index 0 and selection marks
  index -1.
\<close>

theorem trivial_inputs_counterexample:
  "HeapSort_generateSteps [5]
     = [createStep DIVIDE [] [Some 5] False, createStep SORTED [0] [Some 5] False]
   \<and> HeapSort_generateSteps []
     = [createStep DIVIDE [] [] False, createStep SORTED [0] [] False]
   \<and> InsertionSort_generateSteps [] = [createStep SORTED [0] [] False]
   \<and> SelectionSort_generateSteps [] = [createStep SORTED [- 1] [] False]"
  by code_simp


text \<open>
  Claim C7, amended. On an input of length at most 1 every engine returns a trace of at
  most two steps with no user action and no swap step (\<^verbatim>\<open>getOptimalSwapCount\<close>
  is 0); its steps are \<open>SORTED\<close> marks, but for the \<open>DIVIDE\<close> step without indices
  that opens every heap trace; on a singleton every index lies in the array.
\<close>

theorem trivial_inputs:
  assumes "length xs \<le> 1"
  shows "getUserActionCount (generateSteps k xs) = 0
       \<and> getOptimalSwapCount (generateSteps k xs) = 0
       \<and> length (generateSteps k xs) \<le> 2
       \<and> (\<forall>s \<in> set (generateSteps k xs).
             type s = SORTED \<or> (k = Heap \<and> type s = DIVIDE \<and> indices s = []))
       \<and> (length xs = 1 \<longrightarrow>
             (\<forall>s \<in> set (generateSteps k xs). \<forall>i \<in> set (indices s). 0 \<le> i \<and> i < int (length xs)))"
proof -
  consider "xs = []" | x where "xs = [x]"
    using assms by (cases xs) auto
  then show ?thesis
  proof cases
    case 1
    then show ?thesis
      by (cases k) (simp_all add: generateSteps_def empty_traces createStep_def
          getUserActionCount_def getOptimalSwapCount_def)
  next
    case 2
    then show ?thesis
      by (cases k) (simp_all add: generateSteps_def singleton_traces createStep_def
          getUserActionCount_def getOptimalSwapCount_def)
  qed
qed

theorem trivial_inputs_witness:
  "length [7 :: int] \<le> 1
   \<and> getUserActionCount (generateSteps Heap [7]) = 0
   \<and> getOptimalSwapCount (generateSteps Heap [7]) = 0
   \<and> map type (generateSteps Heap [7]) = [DIVIDE, SORTED]
   \<and> map indices (generateSteps Heap [7]) = [[], [0]]
   \<and> map indices (generateSteps Quick [7]) = [[0], [0]]
   \<and> generateSteps Bubble [7] = []"
proof -
  have h: "length [7 :: int] \<le> 1" by simp
  have e: "map type (generateSteps Heap [7]) = [DIVIDE, SORTED]"
    "map indices (generateSteps Heap [7]) = [[], [0]]"
    "map indices (generateSteps Quick [7]) = [[0], [0]]"
    "generateSteps Bubble [7] = []"
    by code_simp+
  from trivial_inputs[OF h, of Heap] show ?thesis using e by simp
qed


subsection \<open>What a trace says about its engine\<close>

lemma sorts_by_swaps_result:
  assumes "sorts_by_swaps tr xs"
  shows "replaySwaps tr (map Some xs) = map Some (sort xs)"
    and "tr \<noteq> [] \<Longrightarrow> arrayState (last tr) = map Some (sort xs)"
    and "snapshots_before (map Some xs) tr"
    and "\<forall>s \<in> set tr. wf_step (length xs) s"
proof -
  from assms obtain arr where I: "Inv (length xs) (map Some xs) tr arr" and s: "sorted arr"
    and e: "tr = [] \<or> ends_sorted tr" unfolding sorts_by_swaps_def by blast
  have a: "arr = map Some (sort xs)"
    using sorted_perm_is_sort[OF s] I by (simp add: Inv_def)
  show "replaySwaps tr (map Some xs) = map Some (sort xs)" using I a by (simp add: Inv_def)
  show "tr \<noteq> [] \<Longrightarrow> arrayState (last tr) = map Some (sort xs)"
    using Inv_last[OF I] e a by auto
  show "snapshots_before (map Some xs) tr" using I by (simp add: Inv_def)
  show "\<forall>s \<in> set tr. wf_step (length xs) s" using I by (simp add: Inv_def)
qed

lemma sorts_by_merge_result:
  assumes "sorts_by_merge tr xs"
  shows "tr \<noteq> [] \<Longrightarrow> arrayState (last tr) = map Some (sort xs)"
    and "\<exists>b. mchain (map Some xs) tr b"
    and "\<forall>s \<in> set tr. wf_mstep (length xs) s"
proof -
  from assms obtain arr where I: "MInv (length xs) (map Some xs) tr arr" and s: "sorted arr"
    and m: "mset arr = mset (map Some xs)"
    and e: "tr = [] \<or> ends_sorted tr" unfolding sorts_by_merge_def by blast
  have a: "arr = map Some (sort xs)" using sorted_perm_is_sort[OF s m] .
  show "tr \<noteq> [] \<Longrightarrow> arrayState (last tr) = map Some (sort xs)"
    using MInv_last[OF I] e a by auto
  show "\<exists>b. mchain (map Some xs) tr b" using I unfolding MInv_def by blast
  show "\<forall>s \<in> set tr. wf_mstep (length xs) s" using I by (simp add: MInv_def)
qed

lemma swap_engines_sort: "k \<noteq> Merge \<Longrightarrow> sorts_by_swaps (generateSteps k xs) xs"
  by (cases k)
     (simp_all add: generateSteps_def BubbleSort_sorts SelectionSort_sorts InsertionSort_sorts
        QuickSort_sorts HeapSort_sorts)

lemma merge_engine_sorts: "sorts_by_merge (generateSteps Merge xs) xs"
  by (simp add: generateSteps_def MergeSort_sorts)

subsection \<open>Validation against a stored swap step\<close>

lemma sort_pair: "sort [u, v :: int] = (if u \<le> v then [u, v] else [v, u])"
  by (simp add: sort_key_def)

lemma validateMove_swap_step:
  assumes "stepIndex < length ss" "isUserAction (ss ! stepIndex)"
    and "indices (ss ! stepIndex) = [i, j]" "i < j"
  shows "snd (validateMove_swap okm failm ss stepIndex a) = ss"
    and "valid (fst (validateMove_swap okm failm ss stepIndex a))
           = (actionType a = ''swap''
              \<and> js_nth (sort (actionIndices a)) 0 = Some i
              \<and> js_nth (sort (actionIndices a)) 1 = Some j)"
proof -
  have n: "js_nth ss stepIndex = Some (ss ! stepIndex)" using assms(1) by (simp add: js_nth_def)
  have s: "sort (indices (ss ! stepIndex)) = [i, j]" using assms(3,4) by (simp add: sort_pair)
  have u: "ss[stepIndex := (ss ! stepIndex)\<lparr>indices := [i, j]\<rparr>] = ss"
    using assms(3) by (metis Step.surjective Step.update_convs(2) list_update_id)
  show "snd (validateMove_swap okm failm ss stepIndex a) = ss"
    using n assms(2) s u by (simp add: validateMove_swap_def Let_def)
  show "valid (fst (validateMove_swap okm failm ss stepIndex a))
           = (actionType a = ''swap''
              \<and> js_nth (sort (actionIndices a)) 0 = Some i
              \<and> js_nth (sort (actionIndices a)) 1 = Some j)"
  proof -
    have e0: "js_nth [i, j] 0 = Some i" and e1: "js_nth [i, j] 1 = Some j"
      by (simp_all add: js_nth_def)
    have "valid (fst (validateMove_swap okm failm ss stepIndex a))
            = (actionType a = ''swap''
               \<and> js_nth [i, j] 0 = js_nth (sort (actionIndices a)) 0
               \<and> js_nth [i, j] 1 = js_nth (sort (actionIndices a)) 1)"
      unfolding validateMove_swap_def n using assms(2) by (simp add: s Let_def)
    then show ?thesis unfolding e0 e1 by metis
  qed
qed

lemma validateMove_swap_other:
  assumes "\<not> (stepIndex < length ss \<and> isUserAction (ss ! stepIndex))"
  shows "snd (validateMove_swap okm failm ss stepIndex a) = ss"
  using assms by (auto simp: validateMove_swap_def js_nth_def split: option.splits)

lemma validateMove_is_swap:
  "k \<noteq> Merge \<Longrightarrow> \<exists>okm failm. validateMove k = validateMove_swap okm failm"
  by (cases k)
     (auto simp: validateMove_def BubbleSort_validateMove_def SelectionSort_validateMove_def
        InsertionSort_validateMove_def QuickSort_validateMove_def HeapSort_validateMove_def)

lemma MergeSort_validateMove_steps: "snd (MergeSort_validateMove ss stepIndex a) = ss"
  by (auto simp: MergeSort_validateMove_def Let_def split: option.splits)

lemma user_step_is_swap:
  assumes "k \<noteq> Merge" "stepIndex < length (generateSteps k xs)"
    and "isUserAction (generateSteps k xs ! stepIndex)"
  shows "type (generateSteps k xs ! stepIndex) = SWAP
       \<and> (\<exists>i j. indices (generateSteps k xs ! stepIndex) = [i, j]
                 \<and> 0 \<le> i \<and> i < j \<and> j < int (length xs))"
proof -
  have "wf_step (length xs) (generateSteps k xs ! stepIndex)"
    using sorts_by_swaps_result(4)[OF swap_engines_sort[OF assms(1)], of xs] assms(2)
    by simp
  then show ?thesis using assms(3)
    by (auto simp: wf_step_def swap_indices_ok_def split: list.splits)
qed

lemma pair_set_eq:
  assumes "i < (j :: int)"
  shows "(js_nth (sort [u, v]) 0 = Some i \<and> js_nth (sort [u, v]) 1 = Some j)
           = (set [u, v] = set [i, j])"
  using assms by (auto simp: sort_pair js_nth_def doubleton_eq_iff)

section \<open>Shape of the steps\<close>

lemma wf_step_lengths:
  "wf_step n s \<Longrightarrow> length (indices s) = length (vals s) \<and> length (arrayState s) = n"
  by (simp add: wf_step_def)

lemma wf_mstep_lengths:
  "wf_mstep n s \<Longrightarrow> length (indices s) = length (vals s) \<and> length (arrayState s) = n"
  by (simp add: wf_mstep_def)

text \<open>
  Claim C9: in every trace of every engine, each step has as many values as indices,
  and its snapshot has the length of the input array.
\<close>

theorem step_lengths:
  "\<forall>s \<in> set (generateSteps k xs).
     length (indices s) = length (vals s) \<and> length (arrayState s) = length xs"
proof (cases "k = Merge")
  case True
  then show ?thesis
    using sorts_by_merge_result(3)[OF merge_engine_sorts, of xs] wf_mstep_lengths by blast
next
  case False
  then show ?thesis
    using sorts_by_swaps_result(4)[OF swap_engines_sort[OF False], of xs] wf_step_lengths
    by blast
qed

theorem step_lengths_witness:
  "4 < length (generateSteps Quick [3, 1, 2])
   \<and> length (indices (generateSteps Quick [3, 1, 2] ! 4))
       = length (vals (generateSteps Quick [3, 1, 2] ! 4))
   \<and> length (arrayState (generateSteps Quick [3, 1, 2] ! 4)) = length [3, 1, 2 :: int]"
proof -
  have l: "4 < length (generateSteps Quick [3, 1, 2])" by code_simp
  then have "generateSteps Quick [3, 1, 2] ! 4 \<in> set (generateSteps Quick [3, 1, 2])"
    by (rule nth_mem)
  with step_lengths[of Quick "[3, 1, 2]"] l show ?thesis by blast
qed

text \<open>
  Claim C10: every swap step of every trace has exactly two indices, the first smaller
  than the second (and both inside the array); so the ascending sort that
  \<^verbatim>\<open>validateMove\<close> performs in place on the indices of the stored step leaves the
  trace as it was, whatever the step index and the action.
\<close>

theorem swap_steps_ordered:
  "(\<forall>s \<in> set (generateSteps k xs). type s = SWAP \<longrightarrow> swap_indices_ok (length xs) (indices s))
   \<and> snd (validateMove k (generateSteps k xs) stepIndex a) = generateSteps k xs"
proof (cases "k = Merge")
  case True
  have "\<forall>s \<in> set (generateSteps k xs). type s \<noteq> SWAP"
    using sorts_by_merge_result(3)[OF merge_engine_sorts, of xs] True
    by (auto simp: wf_mstep_def)
  moreover have "snd (validateMove k (generateSteps k xs) stepIndex a) = generateSteps k xs"
    using True by (simp add: validateMove_def MergeSort_validateMove_steps)
  ultimately show ?thesis by blast
next
  case False
  have w: "\<forall>s \<in> set (generateSteps k xs). wf_step (length xs) s"
    using sorts_by_swaps_result(4)[OF swap_engines_sort[OF False]] .
  then have a: "\<forall>s \<in> set (generateSteps k xs).
      type s = SWAP \<longrightarrow> swap_indices_ok (length xs) (indices s)"
    by (auto simp: wf_step_def)
  obtain okm failm where v: "validateMove k = validateMove_swap okm failm"
    using validateMove_is_swap[OF False] by blast
  have "snd (validateMove_swap okm failm (generateSteps k xs) stepIndex a) = generateSteps k xs"
  proof (cases "stepIndex < length (generateSteps k xs)
                \<and> isUserAction (generateSteps k xs ! stepIndex)")
    case True
    then obtain i j where "indices (generateSteps k xs ! stepIndex) = [i, j]" "i < j"
      using user_step_is_swap[OF False, of stepIndex xs] by blast
    then show ?thesis using validateMove_swap_step(1) True by blast
  next
    case False
    then show ?thesis by (rule validateMove_swap_other)
  qed
  with a v show ?thesis by simp
qed

theorem swap_steps_ordered_witness:
  "3 < length (generateSteps Heap [1, 2])
   \<and> type (generateSteps Heap [1, 2] ! 3) = SWAP
   \<and> swap_indices_ok (length [1, 2 :: int]) (indices (generateSteps Heap [1, 2] ! 3))
   \<and> snd (validateMove Heap (generateSteps Heap [1, 2]) 3 (swapAction 1 0))
       = generateSteps Heap [1, 2]"
proof -
  have l: "3 < length (generateSteps Heap [1, 2])" by code_simp
  have t: "type (generateSteps Heap [1, 2] ! 3) = SWAP" by code_simp
  from l have "generateSteps Heap [1, 2] ! 3 \<in> set (generateSteps Heap [1, 2])"
    by (rule nth_mem)
  with swap_steps_ordered[of Heap "[1, 2]" 3 "swapAction 1 0"] l t show ?thesis by blast
qed

section \<open>Validation of swaps\<close>

text \<open>
  Claim C8: at a user-action step of the trace of a swap-based engine (bubble,
  selection, insertion, quick, heap) the step is a swap of two indices, and
  \<^verbatim>\<open>validateMove\<close> answers valid exactly when the action has kind swap and its
  two indices are the two indices of the step, in either order; any other pair is
  rejected.
\<close>

theorem validateMove_swap_iff:
  assumes "k \<noteq> Merge" and "stepIndex < length (generateSteps k xs)"
    and "isUserAction (generateSteps k xs ! stepIndex)"
    and "length (actionIndices a) = 2"
  shows "type (generateSteps k xs ! stepIndex) = SWAP
       \<and> length (indices (generateSteps k xs ! stepIndex)) = 2
       \<and> valid (fst (validateMove k (generateSteps k xs) stepIndex a))
           = (actionType a = ''swap''
              \<and> set (actionIndices a) = set (indices (generateSteps k xs ! stepIndex)))"
proof -
  obtain i j where t: "type (generateSteps k xs ! stepIndex) = SWAP"
    and ij: "indices (generateSteps k xs ! stepIndex) = [i, j]" "i < j"
    using user_step_is_swap[OF assms(1,2,3)] by blast
  obtain u v where uv: "actionIndices a = [u, v]"
    using assms(4) by (cases "actionIndices a"; cases "tl (actionIndices a)") auto
  obtain okm failm where v: "validateMove k = validateMove_swap okm failm"
    using validateMove_is_swap[OF assms(1)] by blast
  have "valid (fst (validateMove k (generateSteps k xs) stepIndex a))
          = (actionType a = ''swap''
              \<and> js_nth (sort [u, v]) 0 = Some i \<and> js_nth (sort [u, v]) 1 = Some j)"
    unfolding v using validateMove_swap_step(2)[OF assms(2,3) ij] uv by simp
  also have "\<dots> = (actionType a = ''swap'' \<and> set [u, v] = set [i, j])"
    using pair_set_eq[OF ij(2)] by simp
  finally show ?thesis using t ij uv by simp
qed

theorem validateMove_swap_iff_witness:
  "Bubble \<noteq> Merge \<and> 1 < length (generateSteps Bubble [2, 1])
   \<and> isUserAction (generateSteps Bubble [2, 1] ! 1)
   \<and> length (actionIndices (swapAction 1 0)) = 2
   \<and> indices (generateSteps Bubble [2, 1] ! 1) = [0, 1]
   \<and> type (generateSteps Bubble [2, 1] ! 1) = SWAP
   \<and> valid (fst (validateMove Bubble (generateSteps Bubble [2, 1]) 1 (swapAction 1 0)))"
proof -
  have l: "1 < length (generateSteps Bubble [2, 1])" by code_simp
  have u: "isUserAction (generateSteps Bubble [2, 1] ! 1)" by code_simp
  have i: "indices (generateSteps Bubble [2, 1] ! 1) = [0, 1]" by code_simp
  have n: "length (actionIndices (swapAction 1 0)) = 2" by (simp add: swapAction_def)
  have s: "actionType (swapAction 1 0) = ''swap''
           \<and> set (actionIndices (swapAction 1 0)) = set [0, 1]"
    by (auto simp: swapAction_def)
  from validateMove_swap_iff[of Bubble 1 "[2, 1]" "swapAction 1 0", OF _ l u n] i s l u n
  show ?thesis by simp
qed

section \<open>Snapshots and the events of the steps\<close>












subsection \<open>Merge sort: the placements\<close>

















section \<open>Sortedness\<close>

subsection \<open>Which traces are empty\<close>

lemma ends_sorted_nonempty: "ends_sorted ss \<Longrightarrow> ss \<noteq> []"
  by (simp add: ends_sorted_def)

lemma bubble_inner_nonempty:
  "bubble_inner n i j arr sw ss = (arr', sw', ss') \<Longrightarrow> ss \<noteq> [] \<Longrightarrow> ss' \<noteq> []"
proof (induction n i j arr sw ss rule: bubble_inner.induct)
  case (1 n i j arr sw ss)
  show ?case
  proof (cases "j < n - i - 1")
    case False
    then have "ss' = ss" using "1.prems"(1) by (auto simp: bubble_inner.simps[of n i j])
    then show ?thesis using "1.prems"(2) by simp
  next
    case True
    show ?thesis
    proof (cases "js_gt (js_get arr j) (js_get arr (j + 1))")
      case g: True
      have e: "bubble_inner n i (j + 1) (js_swap arr j (j + 1)) True
                 (ss @ [createStep COMPARE [j, j + 1] arr False,
                        createStep SWAP [j, j + 1] arr True]) = (arr', sw', ss')"
        using "1.prems"(1) True g by (simp add: bubble_inner.simps[of n i j])
      show ?thesis using "1.IH"(1)[OF True g e] by simp
    next
      case g: False
      have e: "bubble_inner n i (j + 1) arr sw
                 (ss @ [createStep COMPARE [j, j + 1] arr False]) = (arr', sw', ss')"
        using "1.prems"(1) True g by (simp add: bubble_inner.simps[of n i j])
      show ?thesis using "1.IH"(2)[OF True g e] by simp
    qed
  qed
qed

lemma bubble_inner_first:
  assumes "bubble_inner n i j arr sw ss = (arr', sw', ss')" "j < n - i - 1"
  shows "ss' \<noteq> []"
proof (cases "js_gt (js_get arr j) (js_get arr (j + 1))")
  case True
  have "bubble_inner n i (j + 1) (js_swap arr j (j + 1)) True
          (ss @ [createStep COMPARE [j, j + 1] arr False,
                 createStep SWAP [j, j + 1] arr True]) = (arr', sw', ss')"
    using assms True by (simp add: bubble_inner.simps[of n i j])
  then show ?thesis by (rule bubble_inner_nonempty) simp
next
  case False
  have "bubble_inner n i (j + 1) arr sw
          (ss @ [createStep COMPARE [j, j + 1] arr False]) = (arr', sw', ss')"
    using assms False by (simp add: bubble_inner.simps[of n i j])
  then show ?thesis by (rule bubble_inner_nonempty) simp
qed

lemma BubbleSort_nonempty:
  assumes "2 \<le> length xs"
  shows "BubbleSort_generateSteps xs \<noteq> []"
proof -
  let ?n = "int (length xs)" and ?a = "map Some xs"
  obtain arr1 ss where o: "bubble_outer ?n 0 ?a [] = (arr1, ss)"
    by (cases "bubble_outer ?n 0 ?a []") auto
  obtain arr2 sw ss2 where in1: "bubble_inner ?n 0 0 ?a False [] = (arr2, sw, ss2)"
    by (cases "bubble_inner ?n 0 0 ?a False []") auto
  have lt: "(0::int) < ?n - 1" using assms by simp
  have n2: "ss2 \<noteq> []" using bubble_inner_first[OF in1] lt by simp
  have "ss \<noteq> []"
  proof (cases sw)
    case False
    then have "ss = bubble_mark ?n 0 0 arr2 (ss2 @ [createStep SORTED [?n - 0 - 1] arr2 False])"
      using o in1 lt by (auto simp: bubble_outer.simps[of ?n 0])
    then show ?thesis
      using bubble_mark_ends[OF ends_sorted_push] ends_sorted_nonempty by metis
  next
    case True
    then have "bubble_outer ?n (0 + 1) arr2 (ss2 @ [createStep SORTED [?n - 0 - 1] arr2 False])
                 = (arr1, ss)"
      using o in1 lt by (simp add: bubble_outer.simps[of ?n 0])
    from bubble_outer_ends[OF this] show ?thesis using ends_sorted_nonempty by auto
  qed
  then show ?thesis using o by (simp add: BubbleSort_generateSteps_def)
qed

lemma SelectionSort_nonempty: "SelectionSort_generateSteps xs \<noteq> []"
  by (simp add: SelectionSort_generateSteps_def Let_def split: prod.splits)

lemma HeapSort_nonempty: "HeapSort_generateSteps xs \<noteq> []"
  by (simp add: HeapSort_generateSteps_def Let_def split: prod.splits)

lemma InsertionSort_nonempty: "InsertionSort_generateSteps xs \<noteq> []"
proof (cases "xs = []")
  case True
  then show ?thesis by (simp add: empty_traces)
next
  case False
  let ?n = "int (length xs)" and ?a = "map Some xs"
  obtain arr1 ss where o: "insertion_outer ?n 1 ?a [createStep SORTED [0] ?a False] = (arr1, ss)"
    by (cases "insertion_outer ?n 1 ?a [createStep SORTED [0] ?a False]") auto
  have "ends_sorted (mark_all_sorted ?n 0 arr1 ss)"
    using False by (intro mark_all_sorted_ends') simp
  then show ?thesis using o ends_sorted_nonempty
    by (simp add: InsertionSort_generateSteps_def)
qed

lemma QuickSort_nonempty:
  assumes "xs \<noteq> []"
  shows "QuickSort_generateSteps xs \<noteq> []"
proof -
  let ?a = "map Some xs" and ?n = "length xs"
  obtain arr1 ss where o: "quickSortRecursive 0 (int ?n - 1) ?a [] = (arr1, ss)"
    by (cases "quickSortRecursive 0 (int ?n - 1) ?a []") auto
  have "Inv ?n ?a ss arr1"
    using quickSortRecursive_all[OF o Inv_nil[of ?a, simplified]] by simp
  then have len: "length arr1 = ?n" by (simp add: Inv_def)
  have "ends_sorted (mark_all_sorted (int ?n) 0 arr1 ss)"
    using assms by (intro mark_all_sorted_ends') simp
  then show ?thesis using o len ends_sorted_nonempty
    by (simp add: QuickSort_generateSteps_def)
qed

lemma MergeSort_nonempty:
  assumes "xs \<noteq> []"
  shows "MergeSort_generateSteps xs \<noteq> []"
proof -
  let ?a = "map Some xs" and ?n = "length xs"
  obtain arr1 ss where o: "mergeSortRecursive 0 (int ?n - 1) ?a [] = (arr1, ss)"
    by (cases "mergeSortRecursive 0 (int ?n - 1) ?a []") auto
  have "MInv ?n ?a ss arr1"
    using mergeSortRecursive_all[OF o MInv_nil[of ?a, simplified]] by simp
  then have len: "length arr1 = ?n" by (simp add: MInv_def)
  have "ends_sorted (mark_all_sorted (int ?n) 0 arr1 ss)"
    using assms by (intro mark_all_sorted_ends') simp
  then show ?thesis using o len ends_sorted_nonempty
    by (simp add: MergeSort_generateSteps_def)
qed

lemma short_list: "length xs \<le> 1 \<Longrightarrow> xs = [] \<or> (\<exists>x. xs = [x])"
  by (cases xs) auto

lemma empty_trace_iff:
  "(generateSteps k xs = [])
     = ((k = Bubble \<and> length xs \<le> 1) \<or> ((k = Merge \<or> k = Quick) \<and> xs = []))"
proof (cases k)
  case Bubble
  show ?thesis
  proof (cases "length xs \<le> 1")
    case True
    then have "BubbleSort_generateSteps xs = []"
      using short_list[OF True] empty_traces(1) singleton_traces(1) by auto
    then show ?thesis using Bubble True by (simp add: generateSteps_def)
  next
    case False
    then have "BubbleSort_generateSteps xs \<noteq> []" by (intro BubbleSort_nonempty) simp
    then show ?thesis using Bubble False by (simp add: generateSteps_def)
  qed
next
  case Selection
  then show ?thesis by (simp add: generateSteps_def SelectionSort_nonempty)
next
  case Insertion
  then show ?thesis by (simp add: generateSteps_def InsertionSort_nonempty)
next
  case Merge
  then show ?thesis
    using MergeSort_nonempty[of xs] empty_traces(4) by (auto simp: generateSteps_def)
next
  case Quick
  then show ?thesis
    using QuickSort_nonempty[of xs] empty_traces(5) by (auto simp: generateSteps_def)
next
  case Heap
  then show ?thesis by (simp add: generateSteps_def HeapSort_nonempty)
qed

text \<open>
  Claim C1 says that, for every engine and every input, replaying the swap steps (for
  merge sort the select steps) sorts the input, and that this is the same as the last
  snapshot being the sorted input. On the empty array and on a singleton the bubble
  trace is empty, as are the merge and quick traces of the empty array: there is no
  last step. A select step of merge sort records the entry it is about to overwrite,
  so that writing the recorded value at the recorded index changes nothing: replayed
  this way, the merge trace of \<open>[2, 1]\<close> leaves \<open>[2, 1]\<close>.
\<close>

theorem sortedness_counterexample:
  "generateSteps Bubble [] = [] \<and> generateSteps Bubble [7] = []
   \<and> generateSteps Merge [] = [] \<and> generateSteps Quick [] = []
   \<and> replay_as_specified (generateSteps Merge [2, 1]) [Some 2, Some 1] = [Some 2, Some 1]
   \<and> map Some (sort [2, 1 :: int]) = [Some 1, Some 2]"
  by code_simp

text \<open>
  Claim C1, amended: for the five swap-based engines, the swap steps of the trace,
  applied in order to a copy of the input, give the input sorted in ascending order;
  for every engine, merge sort included, the snapshot of the last step of a trace that
  has one is the input sorted in ascending order. The trace has no step exactly for
  bubble sort on at most one element and for merge and quick sort on the empty array.
\<close>

theorem engines_sort:
  "(k \<noteq> Merge \<longrightarrow> replaySwaps (generateSteps k xs) (map Some xs) = map Some (sort xs))
   \<and> (generateSteps k xs \<noteq> []
        \<longrightarrow> arrayState (last (generateSteps k xs)) = map Some (sort xs))
   \<and> (generateSteps k xs = [])
        = ((k = Bubble \<and> length xs \<le> 1) \<or> ((k = Merge \<or> k = Quick) \<and> xs = []))"
proof -
  have a: "k \<noteq> Merge \<longrightarrow> replaySwaps (generateSteps k xs) (map Some xs) = map Some (sort xs)"
    using sorts_by_swaps_result(1)[OF swap_engines_sort] by blast
  have b: "generateSteps k xs \<noteq> []
             \<longrightarrow> arrayState (last (generateSteps k xs)) = map Some (sort xs)"
  proof (cases "k = Merge")
    case True
    then show ?thesis using sorts_by_merge_result(1)[OF merge_engine_sorts, of xs] by blast
  next
    case False
    then show ?thesis using sorts_by_swaps_result(2)[OF swap_engines_sort[OF False]] by blast
  qed
  from a b empty_trace_iff[of k xs] show ?thesis by blast
qed

theorem engines_sort_witness:
  "Quick \<noteq> Merge \<and> generateSteps Quick [3, 1, 2] \<noteq> []
   \<and> replaySwaps (generateSteps Quick [3, 1, 2]) (map Some [3, 1, 2]) = map Some (sort [3, 1, 2])
   \<and> arrayState (last (generateSteps Quick [3, 1, 2])) = map Some (sort [3, 1, 2])
   \<and> sort [3, 1, 2 :: int] = [1, 2, 3]"
proof -
  have n: "generateSteps Quick [3, 1, 2] \<noteq> []" by code_simp
  have s: "sort [3, 1, 2 :: int] = [1, 2, 3]" by code_simp
  have k: "Quick \<noteq> Merge" by simp
  from engines_sort[of Quick "[3, 1, 2]"] n k s show ?thesis by blast
qed


end
